theory Spec2Isabelle
  imports Main
begin

text \<open>
  dappspec.go turns a Solidity source file into a page of prose beside code: \<open>parse\<close>
  cuts the file into sections, \<open>highlight\<close> sends the code of all sections through
  \<open>pygmentize\<close> in one stream and cuts the answer back into one fragment for each section,
  \<open>generateHTML\<close> gives every section its tag and its prose. The functions below are
  those of \<open>source/dappspec.go\<close>, under their names.
\<close>

section \<open>Bytes, strings and the library calls of dappspec.go\<close>

text \<open>
  A Go \<open>[]byte\<close> and a Go \<open>string\<close> are both byte sequences; a byte is a \<open>char\<close>.
  \<open>NL\<close> is the byte 0x0A.
\<close>

type_synonym bytes = string

abbreviation NL :: char where
  "NL \<equiv> CHR 0x0A"

text \<open>\<open>DQ\<close> is the double quote, the byte 0x22.\<close>

abbreviation DQ :: char where
  "DQ \<equiv> CHR 0x22"

text \<open>The ways the program can panic at run time: a nil pointer is read, a slice is read
  out of range, \<open>regexp.MustCompile\<close> gets an expression it cannot compile.\<close>

datatype error = NilPointerDereference | IndexOutOfRange | RegexpCompile

text \<open>\<open>strings.HasPrefix\<close> and \<open>bytes.HasPrefix\<close>:
  \<open>len(s) >= len(prefix) && s[0:len(prefix)] == prefix\<close>.\<close>

definition HasPrefix :: "string \<Rightarrow> string \<Rightarrow> bool" where
  "HasPrefix s p \<longleftrightarrow> length p \<le> length s \<and> take (length p) s = p"

text \<open>
  \<open>bytes.Split(code, []byte("\n"))\<close> and \<open>strings.Split(firstCodeLine, " ")\<close>: the
  separator of both calls is one byte. The text is cut at every separator; an empty text
  gives one empty piece.
\<close>

fun Split :: "string \<Rightarrow> char \<Rightarrow> string list" where
  "Split [] sep = [[]]"
| "Split (c # cs) sep =
     (if c = sep then [] # Split cs sep
      else case Split cs sep of
             [] \<Rightarrow> [[c]]
           | piece # pieces \<Rightarrow> (c # piece) # pieces)"

text \<open>The class \<open>\s\<close> of Go's regexp package: tab, newline, form feed, carriage return,
  space.\<close>

definition rx_space :: "char \<Rightarrow> bool" where
  "rx_space c \<longleftrightarrow>
     c = CHR 0x09 \<or> c = CHR 0x0A \<or> c = CHR 0x0C \<or> c = CHR 0x0D \<or> c = CHR 0x20"

text \<open>
  \<open>unicode.IsSpace\<close>, as \<open>strings.TrimSpace\<close> reads it on UTF-8 text: the six ASCII
  spaces and the encodings of U+0085, U+00A0, U+1680, U+2000 .. U+200A, U+2028, U+2029,
  U+202F, U+205F and U+3000.
\<close>

definition space_runes :: "string list" where
  "space_runes =
     [[CHR 0x09], [CHR 0x0A], [CHR 0x0B], [CHR 0x0C], [CHR 0x0D], [CHR 0x20],
      [CHR 0xC2, CHR 0x85], [CHR 0xC2, CHR 0xA0],
      [CHR 0xE1, CHR 0x9A, CHR 0x80],
      [CHR 0xE2, CHR 0x80, CHR 0x80], [CHR 0xE2, CHR 0x80, CHR 0x81],
      [CHR 0xE2, CHR 0x80, CHR 0x82], [CHR 0xE2, CHR 0x80, CHR 0x83],
      [CHR 0xE2, CHR 0x80, CHR 0x84], [CHR 0xE2, CHR 0x80, CHR 0x85],
      [CHR 0xE2, CHR 0x80, CHR 0x86], [CHR 0xE2, CHR 0x80, CHR 0x87],
      [CHR 0xE2, CHR 0x80, CHR 0x88], [CHR 0xE2, CHR 0x80, CHR 0x89],
      [CHR 0xE2, CHR 0x80, CHR 0x8A],
      [CHR 0xE2, CHR 0x80, CHR 0xA8], [CHR 0xE2, CHR 0x80, CHR 0xA9],
      [CHR 0xE2, CHR 0x80, CHR 0xAF], [CHR 0xE2, CHR 0x81, CHR 0x9F],
      [CHR 0xE3, CHR 0x80, CHR 0x80]]"

text \<open>The length of the space rune a text starts with, if it starts with one.\<close>

definition leading_space :: "string \<Rightarrow> nat option" where
  "leading_space s = map_option length (find (HasPrefix s) space_runes)"

function TrimLeftSpace :: "string \<Rightarrow> string" where
  "TrimLeftSpace s =
     (case leading_space s of
        None \<Rightarrow> s
      | Some n \<Rightarrow> TrimLeftSpace (drop n s))"
  by pat_completeness auto
termination
proof (relation "measure length")
  show "wf (measure length)" by simp
next
  fix s :: string and n :: nat
  assume a: "leading_space s = Some n"
  then obtain r where r: "find (HasPrefix s) space_runes = Some r" and n: "n = length r"
    by (auto simp: leading_space_def)
  from r have "r \<in> set space_runes" and hp: "HasPrefix s r"
    by (auto simp: find_Some_iff)
  then have "r \<noteq> []"
    by (auto simp: space_runes_def)
  with hp n have "0 < n" and "n \<le> length s"
    by (auto simp: HasPrefix_def)
  then show "(drop n s, s) \<in> measure length"
    by simp
qed

text \<open>\<open>strings.TrimSpace\<close>: the space runes at both ends are cut off (the right end
  is the left end of the reversed text, read against the reversed encodings).\<close>

definition trailing_space :: "string \<Rightarrow> nat option" where
  "trailing_space s =
     map_option length (find (\<lambda>r. HasPrefix (rev s) (rev r)) space_runes)"

function TrimRightSpace :: "string \<Rightarrow> string" where
  "TrimRightSpace s =
     (case trailing_space s of
        None \<Rightarrow> s
      | Some n \<Rightarrow> TrimRightSpace (take (length s - n) s))"
  by pat_completeness auto
termination
proof (relation "measure length")
  show "wf (measure length)" by simp
next
  fix s :: string and n :: nat
  assume a: "trailing_space s = Some n"
  then obtain r where r: "find (\<lambda>r. HasPrefix (rev s) (rev r)) space_runes = Some r"
    and n: "n = length r"
    by (auto simp: trailing_space_def)
  from r have "r \<in> set space_runes" and hp: "HasPrefix (rev s) (rev r)"
    by (auto simp: find_Some_iff)
  then have "r \<noteq> []"
    by (auto simp: space_runes_def)
  with hp n have "0 < n" and "n \<le> length s"
    by (auto simp: HasPrefix_def)
  then show "(take (length s - n) s, s) \<in> measure length"
    by simp
qed

definition TrimSpace :: "string \<Rightarrow> string" where
  "TrimSpace s = TrimRightSpace (TrimLeftSpace s)"

text \<open>\<open>fmt.Sprintf("%d", index)\<close>: the decimal digits of an integer.\<close>

function digits :: "nat \<Rightarrow> string" where
  "digits n =
     (if n < 10 then [char_of (48 + n)]
      else digits (n div 10) @ [char_of (48 + n mod 10)])"
  by pat_completeness auto
termination
  by (relation "measure id") auto

definition Sprintf_d :: "int \<Rightarrow> string" where
  "Sprintf_d i = (if i < 0 then CHR ''-'' # digits (nat (- i)) else digits (nat i))"

text \<open>
  \<open>filepath.Ext\<close>: the suffix of the path from the last dot of its last element, empty
  when that element has no dot.
\<close>

definition Ext :: "string \<Rightarrow> string" where
  "Ext path =
     (let elem = takeWhile (\<lambda>c. c \<noteq> CHR ''/'') (rev path)
      in if CHR ''.'' \<in> set elem
         then CHR ''.'' # rev (takeWhile (\<lambda>c. c \<noteq> CHR ''.'') elem)
         else [])"

section \<open>Types\<close>

record Section =
  docsText :: bytes
  codeText :: bytes
  firstCodeLine :: string
  DocsHTML :: bytes
  CodeHTML :: bytes

text \<open>The fields of a \<open>TemplateSection\<close> are \<open>DocsHTML\<close>, \<open>CodeHTML\<close> and
  \<open>SectionTag\<close>; the first two are written \<open>tplDocsHTML\<close> and \<open>tplCodeHTML\<close> here, to
  keep them apart from the fields of a \<open>Section\<close>.\<close>

record TemplateSection =
  tplDocsHTML :: string
  tplCodeHTML :: string
  SectionTag :: string

text \<open>
  A \<open>Language\<close>. Its two regular expressions, \<open>commentMatcher\<close> and \<open>dividerHTML\<close>, are
  compiled by \<open>setup\<close> from \<open>symbol\<close>, so they are functions of the record below.
\<close>

record Language =
  name :: string
  symbol :: string
  dividerText :: string

definition highlightStart :: string where
  "highlightStart = ''<div class='' @ [DQ] @ ''highlight'' @ [DQ] @ ''><pre>''"

definition highlightEnd :: string where
  "highlightEnd = ''</pre></div>''"

section \<open>The language table\<close>

definition setupLanguages :: "(string \<times> Language) list" where
  "setupLanguages = [(''.sol'', \<lparr>name = ''solidity'', symbol = ''///'', dividerText = []\<rparr>)]"

text \<open>\<open>setup\<close> (here \<open>setup'\<close>) fills in the divider of every language: a newline,
  the comment symbol, the word DIVIDER and a newline.\<close>

definition setup' :: "(string \<times> Language) list \<Rightarrow> (string \<times> Language) list" where
  "setup' langs =
     map (\<lambda>(ext, lang). (ext, lang\<lparr>dividerText := NL # symbol lang @ ''DIVIDER'' @ [NL]\<rparr>)) langs"

definition languages :: "string \<Rightarrow> Language option" where
  "languages = map_of (setup' setupLanguages)"

definition getLanguage :: "string \<Rightarrow> Language option" where
  "getLanguage source = languages (Ext source)"

text \<open>
  \<open>commentMatcher\<close> is the expression \<open>^\s*SYMBOL\s?\<close>. The symbol of the table has no
  regexp operator and does not start with a space, so a match is the run of spaces the
  line starts with, the symbol, and one more space when one follows. The value is the
  length of the match.
\<close>

definition commentMatcher_Find :: "Language \<Rightarrow> bytes \<Rightarrow> nat option" where
  "commentMatcher_Find language line =
     (let rest = dropWhile rx_space line
      in if HasPrefix rest (symbol language)
         then let after = drop (length (symbol language)) rest
              in Some (length (takeWhile rx_space line) + length (symbol language)
                       + (if after \<noteq> [] \<and> rx_space (hd after) then 1 else 0))
         else None)"

definition commentMatcher_Match :: "Language \<Rightarrow> bytes \<Rightarrow> bool" where
  "commentMatcher_Match language line \<longleftrightarrow> commentMatcher_Find language line \<noteq> None"

text \<open>\<open>commentMatcher.ReplaceAll(line, nil)\<close>: the expression is anchored at the start
  of the text, so at most one match is cut out.\<close>

definition commentMatcher_ReplaceAll :: "Language \<Rightarrow> bytes \<Rightarrow> bytes" where
  "commentMatcher_ReplaceAll language line =
     (case commentMatcher_Find language line of
        None \<Rightarrow> line
      | Some n \<Rightarrow> drop n line)"

section \<open>parse\<close>

text \<open>The closure \<open>save\<close> of \<open>parse\<close>: a new section, its two HTML fields nil.\<close>

definition save :: "bytes \<Rightarrow> bytes \<Rightarrow> string \<Rightarrow> Section" where
  "save docs code first =
     \<lparr>docsText = docs, codeText = code, firstCodeLine = first, DocsHTML = [], CodeHTML = []\<rparr>"

text \<open>
  The loop of \<open>parse\<close> over the lines, with the variables it updates as arguments: the
  list of sections, \<open>hasCode\<close>, the two buffers and \<open>firstCodeLine\<close>. The empty list of
  lines is the end of the loop, where the last section is saved.
\<close>

fun parse_loop ::
  "Language \<Rightarrow> bytes list \<Rightarrow> Section list \<Rightarrow> bool \<Rightarrow> bytes \<Rightarrow> bytes \<Rightarrow> string \<Rightarrow> Section list"
where
  "parse_loop language [] sections hasCode code docs first =
     sections @ [save docs code first]"
| "parse_loop language (line # lines) sections hasCode code docs first =
     (if commentMatcher_Match language line then
        (if hasCode then
           parse_loop language lines (sections @ [save docs code first]) False []
             (commentMatcher_ReplaceAll language line @ [NL]) first
         else
           parse_loop language lines sections hasCode code
             (docs @ commentMatcher_ReplaceAll language line @ [NL]) first)
      else
        parse_loop language lines sections True (code @ line @ [NL]) docs
          (if \<not> hasCode then line else first))"

text \<open>\<open>parse\<close>: a source whose extension is not in the table has a nil language, which
  the first turn of the loop dereferences.\<close>

definition parse :: "string \<Rightarrow> bytes \<Rightarrow> error + Section list" where
  "parse source code =
     (case getLanguage source of
        None \<Rightarrow> Inl NilPointerDereference
      | Some language \<Rightarrow> Inr (parse_loop language (Split code NL) [] False [] [] []))"

section \<open>Replacing matches\<close>

text \<open>
  The scan that \<open>bytes.Replace\<close> and \<open>Regexp.ReplaceAll\<close> share. \<open>m\<close> reads a match at
  the start of a text: its length and the text that replaces it. The scan takes the
  leftmost match, writes its replacement and goes on after the match; a byte where no
  match starts is copied. No pattern of this program has an empty match; the scan steps
  over one.
\<close>

function replace_matches :: "(bytes \<Rightarrow> (nat \<times> bytes) option) \<Rightarrow> bytes \<Rightarrow> bytes" where
  "replace_matches m t =
     (if t = [] then []
      else case m t of
             None \<Rightarrow> hd t # replace_matches m (tl t)
           | Some (n, r) \<Rightarrow>
               if n = 0 then hd t # replace_matches m (tl t)
               else r @ replace_matches m (drop n t))"
  by pat_completeness auto
termination
  by (relation "measure (\<lambda>(m, t). length t)") auto

declare replace_matches.simps [simp del]

text \<open>\<open>bytes.Replace(s, old, nil, -1)\<close>: every occurrence of \<open>old\<close> is cut out; with an
  empty \<open>old\<close> nothing changes.\<close>

definition Replace_nil :: "bytes \<Rightarrow> bytes \<Rightarrow> bytes" where
  "Replace_nil s old =
     (if old = [] then s
      else replace_matches (\<lambda>t. if HasPrefix t old then Some (length old, []) else None) s)"

text \<open>\<open>bytes.Join\<close>: the pieces with the separator between them.\<close>

fun Join :: "bytes list \<Rightarrow> bytes \<Rightarrow> bytes" where
  "Join [] sep = []"
| "Join [x] sep = x"
| "Join (x # y # zs) sep = x @ sep @ Join (y # zs) sep"

section \<open>The divider in the output of the highlighter\<close>

text \<open>
  \<open>dividerHTML\<close> is the expression made of \<open>\n*<span class="c1?">\<close>, the symbol and
  \<open>DIVIDER<\/span>\n*\<close>. A match at the start of a text is the run of newlines there,
  the opening tag with or without the digit, the symbol, the word, the closing tag and
  the run of newlines after it. The value is the length of the match.
\<close>

definition dividerHTML_match :: "Language \<Rightarrow> bytes \<Rightarrow> nat option" where
  "dividerHTML_match language t =
     (let n1 = length (takeWhile (\<lambda>c. c = NL) t);
          r1 = dropWhile (\<lambda>c. c = NL) t;
          opening = ''<span class='' @ [DQ] @ ''c'';
          closing = [DQ] @ ''>'' @ symbol language @ ''DIVIDER</span>''
      in if HasPrefix r1 opening then
           let r2 = drop (length opening) r1;
               d = (if HasPrefix r2 ''1'' then 1 else 0);
               r3 = drop d r2
           in if HasPrefix r3 closing then
                Some (n1 + length opening + d + length closing
                      + length (takeWhile (\<lambda>c. c = NL) (drop (length closing) r3)))
              else None
         else None)"

text \<open>\<open>dividerHTML.FindIndex\<close>: the start and the end of the leftmost match, searched
  from position \<open>i\<close> of the buffer, of which \<open>t\<close> is the rest.\<close>

fun dividerHTML_find :: "Language \<Rightarrow> nat \<Rightarrow> bytes \<Rightarrow> (nat \<times> nat) option" where
  "dividerHTML_find language i [] =
     (case dividerHTML_match language [] of
        None \<Rightarrow> None
      | Some n \<Rightarrow> Some (i, i + n))"
| "dividerHTML_find language i (c # cs) =
     (case dividerHTML_match language (c # cs) of
        None \<Rightarrow> dividerHTML_find language (Suc i) cs
      | Some n \<Rightarrow> Some (i, i + n))"

definition dividerHTML_FindIndex :: "Language \<Rightarrow> bytes \<Rightarrow> (nat \<times> nat) option" where
  "dividerHTML_FindIndex language output = dividerHTML_find language 0 output"

section \<open>highlight\<close>

text \<open>
  What is outside the program: the Markdown renderer \<open>blackfriday.MarkdownCommon\<close> and
  the \<open>pygmentize\<close> process. Of the process the record says whether \<open>StdinPipe\<close> and
  \<open>StdoutPipe\<close> gave a pipe (they give nil with their error), whether \<open>Start\<close>, a write
  to the input pipe and \<open>io.Copy\<close> gave an error, the exit status, and, as a function of
  the bytes written to the input pipe, the bytes \<open>io.Copy\<close> left in the buffer. The
  writes and the copy are taken to end: a process that hangs, which the program has no
  timeout for, is outside the model.
\<close>

record World =
  MarkdownCommon :: "bytes \<Rightarrow> bytes"
  StdinPipe_ok :: bool
  StdoutPipe_ok :: bool
  Start_err :: bool
  Write_err :: bool
  Copy_err :: bool
  exit_status :: int
  pygmentize :: "bytes \<Rightarrow> bytes"

text \<open>The two calls that write to the input pipe: \<open>pygmentsInput.Write\<close> for the code of
  a section and \<open>io.WriteString\<close> for the divider.\<close>

datatype pipe_write = Write bytes | WriteString string

fun written :: "pipe_write \<Rightarrow> bytes" where
  "written (Write b) = b"
| "written (WriteString s) = s"

fun is_WriteString :: "pipe_write \<Rightarrow> bool" where
  "is_WriteString (Write b) = False"
| "is_WriteString (WriteString s) = True"

text \<open>The first loop of \<open>highlight\<close>: the code of every section, and the divider after it
  when another section follows.\<close>

fun write_sections :: "Language \<Rightarrow> Section list \<Rightarrow> pipe_write list" where
  "write_sections language [] = []"
| "write_sections language (e # es) =
     Write (codeText e)
       # (if es \<noteq> [] then [WriteString (dividerText language)] else [])
       @ write_sections language es"

text \<open>
  The second loop of \<open>highlight\<close>, with the rest of the output buffer as argument: the
  fragment of a section is the buffer up to the next divider, or the whole buffer when
  there is none, and the buffer goes on after the divider.
\<close>

fun split_fragments ::
  "(bytes \<Rightarrow> bytes) \<Rightarrow> Language \<Rightarrow> bytes \<Rightarrow> Section list \<Rightarrow> Section list"
where
  "split_fragments markdown language output [] = []"
| "split_fragments markdown language output (e # es) =
     (let index = (case dividerHTML_FindIndex language output of
                     None \<Rightarrow> (length output, length output)
                   | Some ix \<Rightarrow> ix);
          fragment = take (fst index) output;
          output' = drop (snd index) output
      in e\<lparr>CodeHTML := Join [highlightStart, highlightEnd] fragment,
            DocsHTML := markdown (docsText e)\<rparr>
         # split_fragments markdown language output' es)"

text \<open>
  \<open>highlight\<close>. A nil language panics where its name is read, a nil input pipe where it
  is written to or closed, a nil output pipe where \<open>io.Copy\<close> reads it. The errors of
  \<open>Start\<close>, of the writes and of \<open>io.Copy\<close> are dropped by the program, and it never waits
  for the process, so the exit status is not read. The value is the list of writes to
  the input pipe and the sections with their HTML.
\<close>

definition highlight ::
  "World \<Rightarrow> string \<Rightarrow> Section list \<Rightarrow> error + (pipe_write list \<times> Section list)"
where
  "highlight w source sections =
     (case getLanguage source of
        None \<Rightarrow> Inl NilPointerDereference
      | Some language \<Rightarrow>
          if \<not> StdinPipe_ok w then Inl NilPointerDereference
          else
            let writes = write_sections language sections
            in if \<not> StdoutPipe_ok w then Inl NilPointerDereference
               else
                 let output = pygmentize w (concat (map written writes));
                     output = Replace_nil output highlightStart;
                     output = Replace_nil output highlightEnd
                 in Inr (writes, split_fragments (MarkdownCommon w) language output sections))"

section \<open>Section tags and identifiers\<close>

text \<open>
  \<open>getSectionTag\<close>. \<open>parts[1]\<close> is read with no check of the length of \<open>parts\<close>: when the
  line has no blank, \<open>parts\<close> has one element and the read panics.
\<close>

definition getSectionTag :: "int \<Rightarrow> string \<Rightarrow> error + string" where
  "getSectionTag index first =
     (if \<not> HasPrefix first ''notice'' \<and> \<not> HasPrefix first ''dev'' \<and>
         \<not> HasPrefix first ''params'' \<and> \<not> HasPrefix first ''return''
      then Inr (Sprintf_d index)
      else
        let parts = Split first CHR '' ''
        in if 1 < length parts then Inr (TrimSpace (parts ! 1)) else Inl IndexOutOfRange)"

text \<open>\<open>getFieldOrType\<close>. Its check \<open>len(parts) > 0\<close> guards \<open>parts[0]\<close>, and it reads
  \<open>parts[1]\<close> under the same check.\<close>

definition getFieldOrType :: "string \<Rightarrow> error + string" where
  "getFieldOrType first =
     (if \<not> HasPrefix first ''notice'' \<and> \<not> HasPrefix first ''dev'' \<and>
         \<not> HasPrefix first ''params'' \<and> \<not> HasPrefix first ''return''
      then
        let parts = Split first CHR '' ''
        in if 0 < length parts then Inr (TrimSpace (hd parts)) else Inr []
      else
        let parts = Split first CHR '' ''
        in if 0 < length parts
           then (if 1 < length parts then Inr (TrimSpace (parts ! 1)) else Inl IndexOutOfRange)
           else Inr [])"

section \<open>References and emphasis in the rendered prose\<close>

text \<open>The class \<open>\w\<close>: digits, letters and the underscore.\<close>

definition rx_word :: "char \<Rightarrow> bool" where
  "rx_word c \<longleftrightarrow>
     (let n = (of_char c :: nat)
      in (48 \<le> n \<and> n \<le> 57) \<or> (65 \<le> n \<and> n \<le> 90) \<or> (97 \<le> n \<and> n \<le> 122) \<or> n = 95)"

text \<open>\<open>referenceRx\<close> is \<open>@@([\w]+)\<close>, \<open>referenceTpl\<close> the link to the section of that
  name.\<close>

definition referenceTpl :: "string \<Rightarrow> string" where
  "referenceTpl w =
     ''<a href='' @ [DQ] @ ''#section-'' @ w @ [DQ] @ '' title='' @ [DQ] @ ''Jump to '' @ w
       @ [DQ] @ ''>'' @ w @ ''</a>''"

definition referenceRx_match :: "bytes \<Rightarrow> (nat \<times> bytes) option" where
  "referenceRx_match t =
     (if HasPrefix t ''@@'' \<and> takeWhile rx_word (drop 2 t) \<noteq> []
      then Some (2 + length (takeWhile rx_word (drop 2 t)),
                 referenceTpl (takeWhile rx_word (drop 2 t)))
      else None)"

definition referenceRx_ReplaceAll :: "bytes \<Rightarrow> bytes" where
  "referenceRx_ReplaceAll t = replace_matches referenceRx_match t"

text \<open>
  The regexp package reads a text rune by rune. \<open>utf8_len\<close> is the width of the rune
  Go's decoder finds at the start of some bytes (given as numbers), 0 when there is
  none: the decoder then reads one byte as the rune U+FFFD.
\<close>

definition cont_byte :: "nat \<Rightarrow> bool" where
  "cont_byte b \<longleftrightarrow> 128 \<le> b \<and> b \<le> 191"

fun utf8_len :: "nat list \<Rightarrow> nat" where
  "utf8_len [] = 0"
| "utf8_len (a # r) =
     (if a < 128 then 1
      else if 194 \<le> a \<and> a \<le> 223 then
        (case r of
           b # r1 \<Rightarrow> if cont_byte b then 2 else 0
         | [] \<Rightarrow> 0)
      else if 224 \<le> a \<and> a \<le> 239 then
        (case r of
           b # c # r2 \<Rightarrow>
             if (if a = 224 then 160 else 128) \<le> b \<and> b \<le> (if a = 237 then 159 else 191) \<and>
                cont_byte c
             then 3 else 0
         | _ \<Rightarrow> 0)
      else if 240 \<le> a \<and> a \<le> 244 then
        (case r of
           b # c # d # r3 \<Rightarrow>
             if (if a = 240 then 144 else 128) \<le> b \<and> b \<le> (if a = 244 then 143 else 191) \<and>
                cont_byte c \<and> cont_byte d
             then 4 else 0
         | _ \<Rightarrow> 0)
      else 0)"

definition rune_len :: "bytes \<Rightarrow> nat" where
  "rune_len t = utf8_len (map of_char (take 4 t))"

text \<open>The runes of a text that is valid UTF-8, each as its bytes; \<open>None\<close> for a text that
  is not valid.\<close>

function runes :: "bytes \<Rightarrow> bytes list option" where
  "runes t =
     (if t = [] then Some []
      else if rune_len t = 0 then None
      else map_option ((#) (take (rune_len t) t)) (runes (drop (rune_len t) t)))"
  by pat_completeness auto
termination
  by (relation "measure length") auto

declare runes.simps [simp del]

text \<open>
  \<open>regexp.MustCompile\<close> panics on an expression that is not valid UTF-8: the quoted
  identifier is one when the identifier is. (The compiler also refuses an expression of
  some megabytes; a first code line of that length is left out.)
\<close>

definition MustCompile_ok :: "string \<Rightarrow> bool" where
  "MustCompile_ok ref \<longleftrightarrow> runes ref \<noteq> None"

text \<open>The rune U+FFFD, in UTF-8.\<close>

definition replacement :: string where
  "replacement = [CHR 0xEF, CHR 0xBF, CHR 0xBD]"

text \<open>
  The quoted identifier in an expression is a literal: its runes, one after the other.
  A rune of the literal matches the same rune of the text, and U+FFFD also matches a byte
  of the text that starts no rune. The value is the number of bytes of the text that the
  literal matches at its start.
\<close>

fun match_literal :: "bytes list \<Rightarrow> bytes \<Rightarrow> nat option" where
  "match_literal [] t = Some 0"
| "match_literal (e # es) t =
     (if HasPrefix t e then
        map_option (\<lambda>n. length e + n) (match_literal es (drop (length e) t))
      else if e = replacement \<and> t \<noteq> [] \<and> rune_len t = 0 then
        map_option (\<lambda>n. 1 + n) (match_literal es (drop 1 t))
      else None)"

text \<open>
  \<open>Regexp.ReplaceAll\<close> for the expressions of \<open>highlightRefs\<close>. \<open>m\<close> reads a match at the
  start of a text: its length and the text that replaces it. The scan takes the leftmost
  match, writes its replacement and goes on after the match; where no match starts, the
  rune there (one byte when there is none) is copied. No expression of \<open>highlightRefs\<close>
  has an empty match; the scan steps over one.
\<close>

function regexp_ReplaceAll :: "(bytes \<Rightarrow> (nat \<times> bytes) option) \<Rightarrow> bytes \<Rightarrow> bytes" where
  "regexp_ReplaceAll m t =
     (if t = [] then []
      else case m t of
             None \<Rightarrow>
               take (max 1 (rune_len t)) t @ regexp_ReplaceAll m (drop (max 1 (rune_len t)) t)
           | Some (n, r) \<Rightarrow>
               if n = 0 then
                 take (max 1 (rune_len t)) t @ regexp_ReplaceAll m (drop (max 1 (rune_len t)) t)
               else r @ regexp_ReplaceAll m (drop n t))"
  by pat_completeness auto
termination
  by (relation "measure (\<lambda>(m, t). length t)") auto

declare regexp_ReplaceAll.simps [simp del]

definition strong :: "bytes \<Rightarrow> bytes" where
  "strong matched = ''<strong>'' @ matched @ ''</strong>''"

text \<open>
  A greedy \<open>[\s]+\<close> followed by the rest of an expression: of the \<open>n\<close> spaces a text
  starts with, the expression takes as many as it can, at least one, such that the rest
  matches what follows them.
\<close>

fun spaces_before :: "(bytes \<Rightarrow> bool) \<Rightarrow> bytes \<Rightarrow> nat \<Rightarrow> nat option" where
  "spaces_before rest t 0 = None"
| "spaces_before rest t (Suc k) =
     (if rest (drop (Suc k) t) then Some (Suc k) else spaces_before rest t k)"

text \<open>The literal followed by a greedy \<open>[\s]+\<close>: the bytes the literal matches and the
  number of spaces after them, at least one.\<close>

definition literal_then_spaces :: "bytes list \<Rightarrow> bytes \<Rightarrow> (nat \<times> nat) option" where
  "literal_then_spaces rs t =
     (case match_literal rs t of
        None \<Rightarrow> None
      | Some l \<Rightarrow>
          let n = length (takeWhile rx_space (drop l t))
          in if 0 < n then Some (l, n) else None)"

text \<open>The first expression, \<open>([\s]+)(REF)\<close>, with \<open>$1<strong>$2</strong>\<close>: \<open>$2\<close> is the
  text the literal matched.\<close>

definition after_space_match :: "bytes list \<Rightarrow> bytes \<Rightarrow> (nat \<times> bytes) option" where
  "after_space_match rs t =
     (case spaces_before (\<lambda>u. match_literal rs u \<noteq> None) t (length (takeWhile rx_space t)) of
        None \<Rightarrow> None
      | Some k \<Rightarrow>
          (case match_literal rs (drop k t) of
             None \<Rightarrow> None
           | Some l \<Rightarrow> Some (k + l, take k t @ strong (take l (drop k t)))))"

text \<open>The second expression, \<open>(REF)([\s]+)\<close>, with \<open><strong>$1</strong>$2\<close>.\<close>

definition before_space_match :: "bytes list \<Rightarrow> bytes \<Rightarrow> (nat \<times> bytes) option" where
  "before_space_match rs t =
     (case literal_then_spaces rs t of
        None \<Rightarrow> None
      | Some (l, n) \<Rightarrow> Some (l + n, strong (take l t) @ take n (drop l t)))"

text \<open>The third expression, \<open>([\s]+)(REF)([\s]+)\<close>, with \<open>$1<strong>$2</strong>$3\<close>.\<close>

definition between_spaces_match :: "bytes list \<Rightarrow> bytes \<Rightarrow> (nat \<times> bytes) option" where
  "between_spaces_match rs t =
     (case spaces_before (\<lambda>u. literal_then_spaces rs u \<noteq> None) t
             (length (takeWhile rx_space t)) of
        None \<Rightarrow> None
      | Some k \<Rightarrow>
          (case literal_then_spaces rs (drop k t) of
             None \<Rightarrow> None
           | Some (l, n) \<Rightarrow>
               Some (k + l + n,
                     take k t @ strong (take l (drop k t)) @ take n (drop (k + l) t))))"

text \<open>\<open>highlightRefs\<close>: the three replacements, one after the other, each on the text the
  one before it returned.\<close>

definition highlightRefs :: "bytes \<Rightarrow> string \<Rightarrow> error + bytes" where
  "highlightRefs text ref =
     (if length ref = 0 then Inr text
      else case runes ref of
             None \<Rightarrow> Inl RegexpCompile
           | Some rs \<Rightarrow>
               let text = regexp_ReplaceAll (after_space_match rs) text;
                   text = regexp_ReplaceAll (before_space_match rs) text;
                   text = regexp_ReplaceAll (between_spaces_match rs) text
               in Inr text)"

section \<open>generateHTML\<close>

text \<open>
  The loop of \<open>generateHTML\<close> over the sections, \<open>i\<close> counting from 0 (a position in a
  list, far below the bound of Go's 64-bit \<open>int\<close>). The value is \<open>sectionsArray\<close>, the
  list handed to the template; the title, the destination and the template itself are
  not part of the model. The loop also stores the new prose in the section, which nothing
  reads afterwards.
\<close>

fun generateHTML_loop :: "Section list \<Rightarrow> int \<Rightarrow> error + TemplateSection list" where
  "generateHTML_loop [] i = Inr []"
| "generateHTML_loop (sec # rest) i =
     (case getSectionTag (i + 1) (firstCodeLine sec) of
        Inl e \<Rightarrow> Inl e
      | Inr sectionTag \<Rightarrow>
          (case getFieldOrType (firstCodeLine sec) of
             Inl e \<Rightarrow> Inl e
           | Inr ref \<Rightarrow>
               (case highlightRefs (referenceRx_ReplaceAll (DocsHTML sec)) ref of
                  Inl e \<Rightarrow> Inl e
                | Inr docs \<Rightarrow>
                    (case generateHTML_loop rest (i + 1) of
                       Inl e \<Rightarrow> Inl e
                     | Inr array \<Rightarrow>
                         Inr (\<lparr>tplDocsHTML = docs,
                               tplCodeHTML =
                                 (if \<not> HasPrefix (codeText sec) ''pragma'' \<and>
                                     \<not> HasPrefix (codeText sec) ''import''
                                  then CodeHTML sec else []),
                               SectionTag = sectionTag\<rparr> # array)))))"

definition generateHTML :: "string \<Rightarrow> Section list \<Rightarrow> error + TemplateSection list" where
  "generateHTML source sections = generateHTML_loop sections 0"

section \<open>generateDocumentation\<close>


section \<open>Predicates of the properties\<close>

text \<open>A text is empty or ends with a newline.\<close>

definition ends_nl :: "bytes \<Rightarrow> bool" where
  "ends_nl s \<longleftrightarrow> s = [] \<or> last s = NL"

text \<open>
  A section \<open>s\<close> covers a group \<open>(ds, cs)\<close> of lines of the file: every line of \<open>ds\<close> is
  a comment line, no line of \<open>cs\<close> is one, the prose of \<open>s\<close> is the lines of \<open>ds\<close> with
  their comment prefix cut off, and the code of \<open>s\<close> is the lines of \<open>cs\<close>, each line
  followed by a newline. The raw text of the section is the lines \<open>ds @ cs\<close>.
\<close>

definition covers :: "Language \<Rightarrow> Section \<Rightarrow> bytes list \<times> bytes list \<Rightarrow> bool" where
  "covers language s g \<longleftrightarrow>
     list_all (commentMatcher_Match language) (fst g) \<and>
     list_all (\<lambda>l. \<not> commentMatcher_Match language l) (snd g) \<and>
     docsText s = concat (map (\<lambda>l. commentMatcher_ReplaceAll language l @ [NL]) (fst g)) \<and>
     codeText s = concat (map (\<lambda>l. l @ [NL]) (snd g))"

text \<open>A first code line is a declaration when it starts with one of the four keywords:
  the test of \<open>getSectionTag\<close> and \<open>getFieldOrType\<close>.\<close>

definition is_declaration :: "string \<Rightarrow> bool" where
  "is_declaration first \<longleftrightarrow>
     HasPrefix first ''notice'' \<or> HasPrefix first ''dev'' \<or>
     HasPrefix first ''params'' \<or> HasPrefix first ''return''"

text \<open>
  The tokens of a line as the specification reads them: the maximal runs of bytes that
  are not spaces. \<open>cur\<close> is the token being read.
\<close>

fun tokens :: "string \<Rightarrow> string \<Rightarrow> string list" where
  "tokens cur [] = (if cur = [] then [] else [cur])"
| "tokens cur (c # cs) =
     (if rx_space c then (if cur = [] then tokens [] cs else cur # tokens [] cs)
      else tokens (cur @ [c]) cs)"

definition whitespace_tokens :: "string \<Rightarrow> string list" where
  "whitespace_tokens s = tokens [] s"

text \<open>
  The fragments of an output buffer as the specification counts them. The next divider
  of a buffer is its leftmost match of \<open>dividerHTML\<close>, or the empty text at its end when
  there is no match. Fragment 0 is the buffer before its next divider; fragment \<open>i + 1\<close>
  is fragment \<open>i\<close> of the buffer after that divider.
\<close>

definition divider_index :: "Language \<Rightarrow> bytes \<Rightarrow> nat \<times> nat" where
  "divider_index language output =
     (case dividerHTML_FindIndex language output of
        None \<Rightarrow> (length output, length output)
      | Some ix \<Rightarrow> ix)"

fun fragment_at :: "Language \<Rightarrow> bytes \<Rightarrow> nat \<Rightarrow> bytes" where
  "fragment_at language output 0 = take (fst (divider_index language output)) output"
| "fragment_at language output (Suc i) =
     fragment_at language (drop (snd (divider_index language output)) output) i"

text \<open>
  The tokens of a prose text are its maximal runs of bytes that are not spaces.
  \<open>map_tokens f spaceBefore t\<close> is the text \<open>t\<close> with every token \<open>tok\<close> replaced by
  \<open>f b a tok\<close>, the spaces kept: \<open>b\<close> says that a space stands before the token, \<open>a\<close> that
  one stands after it. \<open>spaceBefore\<close> says whether a space stands before \<open>t\<close>.
\<close>

function map_tokens :: "(bool \<Rightarrow> bool \<Rightarrow> bytes \<Rightarrow> bytes) \<Rightarrow> bool \<Rightarrow> bytes \<Rightarrow> bytes" where
  "map_tokens f spaceBefore t =
     (if t = [] then []
      else if rx_space (hd t) then hd t # map_tokens f True (tl t)
      else f spaceBefore (dropWhile (\<lambda>c. \<not> rx_space c) t \<noteq> [])
             (takeWhile (\<lambda>c. \<not> rx_space c) t)
           @ map_tokens f False (dropWhile (\<lambda>c. \<not> rx_space c) t))"
  by pat_completeness auto
termination
proof (relation "measure (\<lambda>(f, spaceBefore, t). length t)")
  show "wf (measure (\<lambda>(f, spaceBefore, t). length t))" by simp
next
  fix f :: "bool \<Rightarrow> bool \<Rightarrow> bytes \<Rightarrow> bytes" and spaceBefore :: bool and t :: bytes
  assume "t \<noteq> []" and "rx_space (hd t)"
  then show "((f, True, tl t), (f, spaceBefore, t)) \<in> measure (\<lambda>(f, spaceBefore, t). length t)"
    by simp
next
  fix f :: "bool \<Rightarrow> bool \<Rightarrow> bytes \<Rightarrow> bytes" and spaceBefore :: bool and t :: bytes
  assume "t \<noteq> []" and "\<not> rx_space (hd t)"
  then have "length (dropWhile (\<lambda>c. \<not> rx_space c) t) < length t"
    by (cases t) (auto simp: less_Suc_eq_le length_dropWhile_le)
  then show "((f, False, dropWhile (\<lambda>c. \<not> rx_space c) t), (f, spaceBefore, t))
             \<in> measure (\<lambda>(f, spaceBefore, t). length t)"
    by simp
qed

declare map_tokens.simps [simp del]

definition HasSuffix :: "string \<Rightarrow> string \<Rightarrow> bool" where
  "HasSuffix s r \<longleftrightarrow> length r \<le> length s \<and> drop (length s - length r) s = r"

text \<open>
  What becomes of one token. When a space stands before the token and the token starts
  with the identifier, the identifier at its start is wrapped. When a space stands after
  the token and what is left of the token ends with the identifier, the identifier at
  its end is wrapped. Nothing else of the token changes.
\<close>

definition wrap_front :: "string \<Rightarrow> bool \<Rightarrow> bytes \<Rightarrow> bytes" where
  "wrap_front ref spaceBefore tok =
     (if spaceBefore \<and> HasPrefix tok ref then strong ref @ drop (length ref) tok else tok)"

definition wrap_back :: "string \<Rightarrow> bool \<Rightarrow> bytes \<Rightarrow> bytes" where
  "wrap_back ref spaceAfter tok =
     (if spaceAfter \<and> HasSuffix tok ref then take (length tok - length ref) tok @ strong ref
      else tok)"

definition emphasise_token :: "string \<Rightarrow> bool \<Rightarrow> bool \<Rightarrow> bytes \<Rightarrow> bytes" where
  "emphasise_token ref spaceBefore spaceAfter tok =
     (if spaceBefore \<and> HasPrefix tok ref
      then strong ref @ wrap_back ref spaceAfter (drop (length ref) tok)
      else wrap_back ref spaceAfter tok)"

definition emphasise_tokens :: "string \<Rightarrow> bytes \<Rightarrow> bytes" where
  "emphasise_tokens ref text = map_tokens (emphasise_token ref) False text"

text \<open>
  A plain identifier: not empty, valid UTF-8 without the rune U+FFFD, with no space of
  \<open>\s\<close> and without the byte \<open>>\<close> that ends the strong marks.
\<close>

definition plain_ref :: "string \<Rightarrow> bool" where
  "plain_ref ref \<longleftrightarrow>
     ref \<noteq> [] \<and>
     (case runes ref of None \<Rightarrow> False | Some rs \<Rightarrow> replacement \<notin> set rs) \<and>
     list_all (\<lambda>c. \<not> rx_space c \<and> c \<noteq> CHR ''>'') ref"

section \<open>Two worlds to run the program in\<close>

text \<open>
  A highlighter that is not installed: \<open>Start\<close> fails, so do the writes and the copy,
  and nothing is read. The Markdown renderer returns the prose as it is.
\<close>

definition failed_start :: World where
  "failed_start =
     \<lparr>MarkdownCommon = (\<lambda>docs. docs), StdinPipe_ok = True, StdoutPipe_ok = True,
      Start_err = True, Write_err = True, Copy_err = True, exit_status = 1,
      pygmentize = (\<lambda>input. [])\<rparr>"

text \<open>
  A highlighter that runs: it wraps its input as Pygments does and marks the divider
  comment as a comment token, leaving the code as it is.
\<close>

definition toy_pygmentize :: "bytes \<Rightarrow> bytes" where
  "toy_pygmentize input =
     highlightStart
     @ replace_matches
         (\<lambda>t. if HasPrefix t ''///DIVIDER''
              then Some (10, ''<span class='' @ [DQ] @ ''c1'' @ [DQ] @ ''>///DIVIDER</span>'')
              else None) input
     @ highlightEnd"

definition toy_world :: World where
  "toy_world =
     \<lparr>MarkdownCommon = (\<lambda>docs. docs), StdinPipe_ok = True, StdoutPipe_ok = True,
      Start_err = False, Write_err = False, Copy_err = False, exit_status = 0,
      pygmentize = toy_pygmentize\<rparr>"

section \<open>The language table and the line splitter\<close>

lemma getLanguage_sol:
  "getLanguage ''a.sol'' =
   Some \<lparr>name = ''solidity'', symbol = ''///'', dividerText = NL # ''///DIVIDER'' @ [NL]\<rparr>"
  by (simp add: getLanguage_def languages_def setup'_def setupLanguages_def Ext_def)

lemma getLanguage_Some:
  "getLanguage source = Some language \<Longrightarrow>
   language = \<lparr>name = ''solidity'', symbol = ''///'', dividerText = NL # ''///DIVIDER'' @ [NL]\<rparr>"
  by (simp add: getLanguage_def languages_def setup'_def setupLanguages_def split: if_splits)

lemma Split_nonempty: "Split s c \<noteq> []"
  by (induction s) (auto split: list.splits)

lemma Split_join: "concat (map (\<lambda>l. l @ [c]) (Split s c)) = s @ [c]"
proof (induction s)
  case Nil
  show ?case by simp
next
  case (Cons x xs)
  obtain y ys where sp: "Split xs c = y # ys"
    using Split_nonempty [of xs c] by (cases "Split xs c") auto
  with Cons show ?case by auto
qed

lemma concat_map_concat:
  "concat (map (\<lambda>g. concat (map f (h g))) gs) = concat (map f (concat (map h gs)))"
  by (induction gs) auto

section \<open>The loop of parse\<close>

text \<open>A run of comment lines met outside code only grows the prose buffer.\<close>

lemma parse_loop_comments:
  "list_all (commentMatcher_Match language) xs \<Longrightarrow>
   parse_loop language (xs @ ys) sections False code docs first =
   parse_loop language ys sections False code
     (docs @ concat (map (\<lambda>l. commentMatcher_ReplaceAll language l @ [NL]) xs)) first"
  by (induction xs arbitrary: docs) auto

text \<open>Both buffers are empty or end with a newline at every turn, so every saved section
  has such texts.\<close>

lemma parse_loop_ends_nl:
  "\<lbrakk>list_all (\<lambda>s. ends_nl (docsText s) \<and> ends_nl (codeText s)) sections;
    ends_nl code; ends_nl docs\<rbrakk>
   \<Longrightarrow> list_all (\<lambda>s. ends_nl (docsText s) \<and> ends_nl (codeText s))
         (parse_loop language lines sections hasCode code docs first)"
  by (induction lines arbitrary: sections hasCode code docs first)
     (auto simp: ends_nl_def save_def)

text \<open>
  The invariant of the loop: the saved sections cover the groups \<open>gs\<close>, the two buffers
  cover the group \<open>(ds, cs)\<close> in progress, and \<open>hasCode\<close> says that this group has a code
  line. Then the sections returned cover groups that are, in order, \<open>gs\<close>, the group in
  progress and the lines still to read.
\<close>

lemma parse_loop_covers:
  "\<lbrakk>list_all2 (covers language) sections gs; covers language (save docs code first) (ds, cs);
    hasCode \<longleftrightarrow> cs \<noteq> []\<rbrakk>
   \<Longrightarrow> \<exists>gs'. list_all2 (covers language)
               (parse_loop language lines sections hasCode code docs first) gs' \<and>
             concat (map (\<lambda>(ds, cs). ds @ cs) gs') =
             concat (map (\<lambda>(ds, cs). ds @ cs) gs) @ ds @ cs @ lines"
proof (induction lines arbitrary: sections hasCode code docs first gs ds cs)
  case Nil
  have "list_all2 (covers language) (sections @ [save docs code first]) (gs @ [(ds, cs)])"
    using Nil by (simp add: list_all2_appendI)
  then show ?case
    by (intro exI [of _ "gs @ [(ds, cs)]"]) simp
next
  case (Cons line lines)
  show ?case
  proof (cases "commentMatcher_Match language line")
    case True
    note m = this
    show ?thesis
    proof (cases hasCode)
      case True
      have a: "list_all2 (covers language) (sections @ [save docs code first]) (gs @ [(ds, cs)])"
        using Cons.prems by (simp add: list_all2_appendI)
      have b: "covers language (save (commentMatcher_ReplaceAll language line @ [NL]) [] first)
                 ([line], [])"
        using m by (simp add: covers_def save_def)
      from Cons.IH [OF a b] obtain gs' where
        "list_all2 (covers language)
           (parse_loop language lines (sections @ [save docs code first]) False []
              (commentMatcher_ReplaceAll language line @ [NL]) first) gs'"
        "concat (map (\<lambda>(ds, cs). ds @ cs) gs') =
           concat (map (\<lambda>(ds, cs). ds @ cs) (gs @ [(ds, cs)])) @ [line] @ [] @ lines"
        by auto
      then show ?thesis using m True
        by (intro exI [of _ gs']) simp
    next
      case False
      then have cs: "cs = []" using Cons.prems by simp
      have b: "covers language
                 (save (docs @ commentMatcher_ReplaceAll language line @ [NL]) code first)
                 (ds @ [line], cs)"
        using m Cons.prems(2) by (simp add: covers_def save_def)
      from Cons.IH [OF Cons.prems(1) b] False cs obtain gs' where
        "list_all2 (covers language)
           (parse_loop language lines sections hasCode code
              (docs @ commentMatcher_ReplaceAll language line @ [NL]) first) gs'"
        "concat (map (\<lambda>(ds, cs). ds @ cs) gs') =
           concat (map (\<lambda>(ds, cs). ds @ cs) gs) @ (ds @ [line]) @ cs @ lines"
        by auto
      then show ?thesis using m False cs
        by (intro exI [of _ gs']) simp
    qed
  next
    case False
    have b: "covers language
               (save docs (code @ line @ [NL]) (if \<not> hasCode then line else first))
               (ds, cs @ [line])"
      using False Cons.prems(2) by (simp add: covers_def save_def)
    from Cons.IH [OF Cons.prems(1) b] obtain gs' where
      "list_all2 (covers language)
         (parse_loop language lines sections True (code @ line @ [NL]) docs
            (if \<not> hasCode then line else first)) gs'"
      "concat (map (\<lambda>(ds, cs). ds @ cs) gs') =
         concat (map (\<lambda>(ds, cs). ds @ cs) gs) @ ds @ (cs @ [line]) @ lines"
      by auto
    then show ?thesis using False
      by (intro exI [of _ gs']) simp
  qed
qed

text \<open>A run of code lines only grows the code buffer; the first of them is the first
  code line when the section had no code yet.\<close>

lemma parse_loop_code:
  "list_all (\<lambda>l. \<not> commentMatcher_Match language l) xs \<Longrightarrow>
   parse_loop language xs sections hasCode code docs first =
   sections @ [save docs (code @ concat (map (\<lambda>l. l @ [NL]) xs))
                 (if hasCode \<or> xs = [] then first else hd xs)]"
  by (induction xs arbitrary: hasCode code first) auto

lemma covers_empty: "covers language (save [] [] first) ([], [])"
  by (simp add: covers_def save_def)

lemma parse_covers:
  "\<exists>gs. list_all2 (covers language) (parse_loop language (Split code NL) [] False [] [] []) gs \<and>
        concat (map (\<lambda>(ds, cs). ds @ cs) gs) = Split code NL"
  using parse_loop_covers [of language "[]" "[]" "[]" "[]" "[]" "[]" "[]" False "Split code NL"]
  by (simp add: covers_empty)

section \<open>Properties of parse\<close>

text \<open>
  Claim C1. For a source whose language is in the table, \<open>parse\<close> returns sections, and
  the lines of the file fall into consecutive groups, one group for each section and in
  the order of the sections, such that each section covers its group: the comment lines
  of the group, before their prefix is cut off, followed by its code lines. The groups,
  one after the other, are the lines of the file: no line is added, lost or moved.
\<close>

theorem parse_sections_tile_lines:
  assumes "getLanguage source = Some language"
  shows "\<exists>sections gs. parse source code = Inr sections \<and>
           list_all2 (covers language) sections gs \<and>
           concat (map (\<lambda>(ds, cs). ds @ cs) gs) = Split code NL"
  using parse_covers [of language code] assms by (auto simp: parse_def)

theorem parse_sections_tile_lines_witness:
  "\<exists>sections gs.
     parse ''a.sol'' (''/// a'' @ [NL] @ ''x'' @ [NL] @ ''/// b'') = Inr sections \<and>
     list_all2 (covers \<lparr>name = ''solidity'', symbol = ''///'',
                        dividerText = NL # ''///DIVIDER'' @ [NL]\<rparr>) sections gs \<and>
     concat (map (\<lambda>(ds, cs). ds @ cs) gs) = [''/// a'', ''x'', ''/// b'']"
  using parse_sections_tile_lines
    [OF getLanguage_sol, of "''/// a'' @ [NL] @ ''x'' @ [NL] @ ''/// b''"]
  by simp

text \<open>
  Claim C3, as the code has it. The empty input is one empty line, which is not a comment
  line: \<open>parse\<close> takes it as a code line and returns one section whose prose is empty
  and whose code is the newline written after that line. An input whose lines are all
  comment lines, but for the piece after a last newline, gives exactly one section; when
  every line is a comment line the code of that section is empty.
\<close>

theorem parse_empty_or_only_comments:
  assumes "getLanguage source = Some language"
  shows "parse source [] =
           Inr [\<lparr>docsText = [], codeText = [NL], firstCodeLine = [],
                 DocsHTML = [], CodeHTML = []\<rparr>] \<and>
         (list_all (commentMatcher_Match language) (butlast (Split code NL)) \<longrightarrow>
            (\<exists>s. parse source code = Inr [s])) \<and>
         (list_all (commentMatcher_Match language) (Split code NL) \<longrightarrow>
            (\<exists>s. parse source code = Inr [s] \<and> codeText s = []))"
proof (intro conjI impI)
  have "\<not> commentMatcher_Match language []"
    using getLanguage_Some [OF assms]
    by (simp add: commentMatcher_Match_def commentMatcher_Find_def HasPrefix_def)
  then show "parse source [] =
           Inr [\<lparr>docsText = [], codeText = [NL], firstCodeLine = [],
                 DocsHTML = [], CodeHTML = []\<rparr>]"
    using assms by (simp add: parse_def save_def)
next
  assume a: "list_all (commentMatcher_Match language) (butlast (Split code NL))"
  have sp: "Split code NL = butlast (Split code NL) @ [last (Split code NL)]"
    using Split_nonempty [of code NL] by simp
  have "\<exists>s. parse_loop language (butlast (Split code NL) @ [last (Split code NL)])
               [] False [] [] [] = [s]"
    by (simp add: parse_loop_comments [OF a])
  then show "\<exists>s. parse source code = Inr [s]"
    using assms sp by (simp add: parse_def)
next
  assume a: "list_all (commentMatcher_Match language) (Split code NL)"
  have "parse_loop language (Split code NL) [] False [] [] [] =
        [save (concat (map (\<lambda>l. commentMatcher_ReplaceAll language l @ [NL]) (Split code NL)))
           [] []]"
    using parse_loop_comments [OF a, of "[]" "[]" "[]" "[]" "[]"] by simp
  then show "\<exists>s. parse source code = Inr [s] \<and> codeText s = []"
    using assms by (simp add: parse_def save_def)
qed

theorem parse_empty_or_only_comments_witness:
  "parse ''a.sol'' [] =
     Inr [\<lparr>docsText = [], codeText = [NL], firstCodeLine = [],
           DocsHTML = [], CodeHTML = []\<rparr>] \<and>
   (\<exists>s. parse ''a.sol'' (''/// a'' @ [NL] @ '' /// b'' @ [NL]) = Inr [s]) \<and>
   (\<exists>s. parse ''a.sol'' (''/// a'' @ [NL] @ '' /// b'') = Inr [s] \<and> codeText s = [])"
proof -
  let ?l = "\<lparr>name = ''solidity'', symbol = ''///'', dividerText = NL # ''///DIVIDER'' @ [NL]\<rparr>"
  have a: "list_all (commentMatcher_Match ?l)
             (butlast (Split (''/// a'' @ [NL] @ '' /// b'' @ [NL]) NL))"
    by (simp add: commentMatcher_Match_def commentMatcher_Find_def HasPrefix_def rx_space_def)
  have b: "list_all (commentMatcher_Match ?l) (Split (''/// a'' @ [NL] @ '' /// b'') NL)"
    by (simp add: commentMatcher_Match_def commentMatcher_Find_def HasPrefix_def rx_space_def)
  show ?thesis
    using parse_empty_or_only_comments
            [OF getLanguage_sol, of "''/// a'' @ [NL] @ '' /// b'' @ [NL]"]
          parse_empty_or_only_comments
            [OF getLanguage_sol, of "''/// a'' @ [NL] @ '' /// b''"] a b
    by blast
qed

text \<open>The empty file: the code of its one section is a newline, not the empty text.\<close>

theorem parse_empty_input_counterexample:
  "parse ''empty.sol'' [] =
     Inr [\<lparr>docsText = [], codeText = [NL], firstCodeLine = [],
           DocsHTML = [], CodeHTML = []\<rparr>] \<and>
   [NL] \<noteq> ([] :: bytes)"
  by code_simp

text \<open>
  Claim C10. For a source whose language is in the table, \<open>parse\<close> returns sections whose
  prose and code are each empty or end with a newline. The raw lines the sections cover,
  each followed by the newline \<open>parse\<close> writes after it, are the file followed by one
  newline: a file whose last line has no newline gets one more. For a file with no
  comment line this is the code of its one section, the whole file and one newline.
\<close>

theorem parse_texts_end_with_newline:
  assumes "getLanguage source = Some language"
  shows "(\<exists>sections gs. parse source code = Inr sections \<and>
           list_all (\<lambda>s. ends_nl (docsText s) \<and> ends_nl (codeText s)) sections \<and>
           list_all2 (covers language) sections gs \<and>
           concat (map (\<lambda>(ds, cs). concat (map (\<lambda>l. l @ [NL]) (ds @ cs))) gs) = code @ [NL]) \<and>
         (list_all (\<lambda>l. \<not> commentMatcher_Match language l) (Split code NL) \<longrightarrow>
            parse source code = Inr [save [] (code @ [NL]) (hd (Split code NL))])"
proof (intro conjI impI)
  assume "list_all (\<lambda>l. \<not> commentMatcher_Match language l) (Split code NL)"
  from parse_loop_code [OF this, of "[]" False "[]" "[]" "[]"]
  show "parse source code = Inr [save [] (code @ [NL]) (hd (Split code NL))]"
    using assms by (simp add: parse_def Split_join Split_nonempty)
next
  show "\<exists>sections gs. parse source code = Inr sections \<and>
           list_all (\<lambda>s. ends_nl (docsText s) \<and> ends_nl (codeText s)) sections \<and>
           list_all2 (covers language) sections gs \<and>
           concat (map (\<lambda>(ds, cs). concat (map (\<lambda>l. l @ [NL]) (ds @ cs))) gs) = code @ [NL]"
  proof -
  let ?secs = "parse_loop language (Split code NL) [] False [] [] []"
  from parse_covers [of language code] obtain gs where
    gs: "list_all2 (covers language) ?secs gs"
        "concat (map (\<lambda>(ds, cs). ds @ cs) gs) = Split code NL"
    by auto
  have "concat (map (\<lambda>(ds, cs). concat (map (\<lambda>l. l @ [NL]) (ds @ cs))) gs) =
        concat (map (\<lambda>l. l @ [NL]) (concat (map (\<lambda>(ds, cs). ds @ cs) gs)))"
    using concat_map_concat [of "\<lambda>l. l @ [NL]" "\<lambda>(ds, cs). ds @ cs" gs]
    by (simp add: case_prod_unfold)
  also have "\<dots> = code @ [NL]"
    by (simp add: gs(2) Split_join)
  finally have raw:
    "concat (map (\<lambda>(ds, cs). concat (map (\<lambda>l. l @ [NL]) (ds @ cs))) gs) = code @ [NL]" .
  have nl: "list_all (\<lambda>s. ends_nl (docsText s) \<and> ends_nl (codeText s)) ?secs"
    by (rule parse_loop_ends_nl) (simp_all add: ends_nl_def)
  have "parse source code = Inr ?secs"
    using assms by (simp add: parse_def)
  with gs(1) raw nl show ?thesis by blast
  qed
qed

theorem parse_texts_end_with_newline_witness:
  "(\<exists>sections gs.
     parse ''a.sol'' (''/// a'' @ [NL] @ ''x'') = Inr sections \<and>
     list_all (\<lambda>s. ends_nl (docsText s) \<and> ends_nl (codeText s)) sections \<and>
     list_all2 (covers \<lparr>name = ''solidity'', symbol = ''///'',
                        dividerText = NL # ''///DIVIDER'' @ [NL]\<rparr>) sections gs \<and>
     concat (map (\<lambda>(ds, cs). concat (map (\<lambda>l. l @ [NL]) (ds @ cs))) gs) =
       ''/// a'' @ [NL] @ ''x'' @ [NL]) \<and>
   parse ''a.sol'' (''x'' @ [NL] @ ''y'') =
     Inr [\<lparr>docsText = [], codeText = ''x'' @ [NL] @ ''y'' @ [NL], firstCodeLine = ''x'',
           DocsHTML = [], CodeHTML = []\<rparr>]"
proof -
  let ?l = "\<lparr>name = ''solidity'', symbol = ''///'', dividerText = NL # ''///DIVIDER'' @ [NL]\<rparr>"
  have a: "list_all (\<lambda>l. \<not> commentMatcher_Match ?l l) (Split (''x'' @ [NL] @ ''y'') NL)"
    by (simp add: commentMatcher_Match_def commentMatcher_Find_def HasPrefix_def rx_space_def)
  from parse_texts_end_with_newline [OF getLanguage_sol, of "''/// a'' @ [NL] @ ''x''"]
    parse_texts_end_with_newline [OF getLanguage_sol, of "''x'' @ [NL] @ ''y''"] a
  show ?thesis by (simp add: save_def)
qed


section \<open>Section tags\<close>

lemma Split_no_sep: "c \<notin> set s \<Longrightarrow> Split s c = [s]"
  by (induction s) auto

lemma Split_at_sep: "c \<notin> set a \<Longrightarrow> Split (a @ c # b) c = a # Split b c"
  by (induction a) auto

lemma dropWhile_to_sep: "c \<in> set s \<Longrightarrow> \<exists>b. dropWhile (\<lambda>x. x \<noteq> c) s = c # b"
  by (induction s) auto

lemma Split_hd: "Split b c \<noteq> [] \<and> hd (Split b c) = takeWhile (\<lambda>x. x \<noteq> c) b"
  by (induction b) (auto split: list.splits)

text \<open>The second piece of a text that has a separator: what stands between the first
  separator and the next one, or the end.\<close>

lemma Split_second:
  assumes "c \<in> set s"
  shows "1 < length (Split s c) \<and>
         Split s c ! 1 = takeWhile (\<lambda>x. x \<noteq> c) (tl (dropWhile (\<lambda>x. x \<noteq> c) s))"
proof -
  let ?a = "takeWhile (\<lambda>x. x \<noteq> c) s"
  from dropWhile_to_sep [OF assms] obtain b where b: "dropWhile (\<lambda>x. x \<noteq> c) s = c # b"
    by auto
  have s: "s = ?a @ c # b" using b by (metis takeWhile_dropWhile_id)
  have na: "c \<notin> set ?a" by (auto dest: set_takeWhileD)
  have sp: "Split s c = ?a # Split b c"
    using Split_at_sep [OF na, of b] s by simp
  obtain p ps where ps: "Split b c = p # ps" and p: "p = takeWhile (\<lambda>x. x \<noteq> c) b"
    using Split_hd [of b c] by (cases "Split b c") auto
  show ?thesis using sp ps p b by simp
qed

text \<open>What the loop of \<open>generateHTML\<close> returns, entry by entry.\<close>

lemma generateHTML_loop_nth:
  "generateHTML_loop sections k = Inr array \<Longrightarrow>
   length array = length sections \<and>
   (\<forall>i < length sections.
      getSectionTag (k + int i + 1) (firstCodeLine (sections ! i)) = Inr (SectionTag (array ! i)) \<and>
      (\<exists>ref. getFieldOrType (firstCodeLine (sections ! i)) = Inr ref \<and>
             highlightRefs (referenceRx_ReplaceAll (DocsHTML (sections ! i))) ref =
               Inr (tplDocsHTML (array ! i))) \<and>
      tplCodeHTML (array ! i) =
        (if \<not> HasPrefix (codeText (sections ! i)) ''pragma'' \<and>
            \<not> HasPrefix (codeText (sections ! i)) ''import''
         then CodeHTML (sections ! i) else []))"
proof (induction sections arbitrary: k array)
  case Nil
  then show ?case by simp
next
  case (Cons sec rest)
  from Cons.prems obtain tag ref docs array' where
    t: "getSectionTag (k + 1) (firstCodeLine sec) = Inr tag" and
    r: "getFieldOrType (firstCodeLine sec) = Inr ref" and
    d: "highlightRefs (referenceRx_ReplaceAll (DocsHTML sec)) ref = Inr docs" and
    l: "generateHTML_loop rest (k + 1) = Inr array'" and
    a: "array = \<lparr>tplDocsHTML = docs,
                  tplCodeHTML = (if \<not> HasPrefix (codeText sec) ''pragma'' \<and>
                                    \<not> HasPrefix (codeText sec) ''import''
                                 then CodeHTML sec else []),
                  SectionTag = tag\<rparr> # array'"
    by (auto split: sum.splits)
  note ih = Cons.IH [OF l]
  show ?case
  proof (intro conjI allI impI)
    show "length array = length (sec # rest)" using ih a by simp
  next
    fix i assume "i < length (sec # rest)"
    then show "getSectionTag (k + int i + 1) (firstCodeLine ((sec # rest) ! i)) =
               Inr (SectionTag (array ! i))"
      using ih a t by (cases i) (auto simp: algebra_simps)
  next
    fix i assume "i < length (sec # rest)"
    then show "\<exists>ref. getFieldOrType (firstCodeLine ((sec # rest) ! i)) = Inr ref \<and>
             highlightRefs (referenceRx_ReplaceAll (DocsHTML ((sec # rest) ! i))) ref =
               Inr (tplDocsHTML (array ! i))"
      using ih a r d by (cases i) auto
  next
    fix i assume "i < length (sec # rest)"
    then show "tplCodeHTML (array ! i) =
        (if \<not> HasPrefix (codeText ((sec # rest) ! i)) ''pragma'' \<and>
            \<not> HasPrefix (codeText ((sec # rest) ! i)) ''import''
         then CodeHTML ((sec # rest) ! i) else [])"
      using ih a by (cases i) auto
  qed
qed

text \<open>The HTML of the code of a section does not reach the page when its code starts
  with one of the two keywords.\<close>

lemma generateHTML_loop_suppressed:
  "\<lbrakk>i < length sections;
    HasPrefix (codeText (sections ! i)) ''pragma'' \<or>
    HasPrefix (codeText (sections ! i)) ''import''\<rbrakk>
   \<Longrightarrow> generateHTML_loop (sections [i := (sections ! i)\<lparr>CodeHTML := html\<rparr>]) k =
       generateHTML_loop sections k"
proof (induction sections arbitrary: i k)
  case Nil
  then show ?case by simp
next
  case (Cons sec rest)
  show ?case
  proof (cases i)
    case 0
    with Cons.prems show ?thesis by (auto split: sum.splits)
  next
    case (Suc j)
    with Cons.prems have "generateHTML_loop (rest [j := (rest ! j)\<lparr>CodeHTML := html\<rparr>]) (k + 1) =
                          generateHTML_loop rest (k + 1)"
      by (intro Cons.IH) auto
    with Suc show ?thesis by (auto split: sum.splits)
  qed
qed

text \<open>
  Claim C9. A first code line that starts with one of the four keywords and has no blank
  is split into one piece, and both \<open>getSectionTag\<close> and \<open>getFieldOrType\<close> read the
  second piece: the read is out of range and the program panics. The line \<open>dev\<close> is one
  such line.
\<close>

theorem tag_lookup_out_of_range:
  assumes "is_declaration first" and "CHR '' '' \<notin> set first"
  shows "getSectionTag index first = Inl IndexOutOfRange \<and>
         getFieldOrType first = Inl IndexOutOfRange"
  using assms
  by (auto simp: is_declaration_def getSectionTag_def getFieldOrType_def Split_no_sep)

theorem tag_lookup_out_of_range_witness:
  "is_declaration ''dev'' \<and> CHR '' '' \<notin> set ''dev'' \<and>
   getSectionTag 1 ''dev'' = Inl IndexOutOfRange \<and>
   getFieldOrType ''dev'' = Inl IndexOutOfRange"
proof -
  have a: "is_declaration ''dev''" by (simp add: is_declaration_def HasPrefix_def)
  have b: "CHR '' '' \<notin> set ''dev''" by simp
  show ?thesis using tag_lookup_out_of_range [OF a b, of 1] a b by simp
qed

text \<open>
  Claim C6, as the code has it. The tag of a section whose first code line is not a
  declaration is its position among the sections, counted from 1, in decimal. The tag of
  a declaration that has a blank is the piece of the line between its first blank and
  the next one (or the end of the line), with the spaces at its two ends cut off: the
  line is split at every single blank, not at runs of spaces. In the list \<open>generateHTML\<close>
  hands to the template, entry \<open>i\<close> carries the tag of section \<open>i\<close>, computed from its own
  first code line and the position \<open>i + 1\<close>.
\<close>

theorem section_tag_derivation:
  "(\<not> is_declaration first \<longrightarrow> getSectionTag index first = Inr (Sprintf_d index)) \<and>
   (is_declaration first \<and> CHR '' '' \<in> set first \<longrightarrow>
      getSectionTag index first =
        Inr (TrimSpace (takeWhile (\<lambda>x. x \<noteq> CHR '' '')
                          (tl (dropWhile (\<lambda>x. x \<noteq> CHR '' '') first))))) \<and>
   (generateHTML source sections = Inr array \<longrightarrow>
      length array = length sections \<and>
      (\<forall>i < length sections.
         getSectionTag (int i + 1) (firstCodeLine (sections ! i)) =
           Inr (SectionTag (array ! i))))"
proof (intro conjI impI)
  assume "\<not> is_declaration first"
  then show "getSectionTag index first = Inr (Sprintf_d index)"
    by (simp add: is_declaration_def getSectionTag_def)
next
  assume a: "is_declaration first \<and> CHR '' '' \<in> set first"
  then show "getSectionTag index first =
        Inr (TrimSpace (takeWhile (\<lambda>x. x \<noteq> CHR '' '')
                          (tl (dropWhile (\<lambda>x. x \<noteq> CHR '' '') first))))"
    using Split_second [of "CHR '' ''" first]
    by (auto simp: is_declaration_def getSectionTag_def Let_def)
next
  assume "generateHTML source sections = Inr array"
  then show "length array = length sections"
    using generateHTML_loop_nth [of sections 0 array] by (simp add: generateHTML_def)
next
  assume "generateHTML source sections = Inr array"
  then show "\<forall>i < length sections.
         getSectionTag (int i + 1) (firstCodeLine (sections ! i)) =
           Inr (SectionTag (array ! i))"
    using generateHTML_loop_nth [of sections 0 array] by (simp add: generateHTML_def)
qed

theorem section_tag_derivation_witness:
  "\<not> is_declaration ''uint x'' \<and> getSectionTag 3 ''uint x'' = Inr ''3'' \<and>
   is_declaration ''dev Foo bar'' \<and> CHR '' '' \<in> set ''dev Foo bar'' \<and>
   getSectionTag 2 ''dev Foo bar'' = Inr ''Foo'' \<and>
   generateHTML ''a.sol''
     [save [] ''f()'' ''f()'', save [] ''dev Foo bar'' ''dev Foo bar'', save [] ''uint x'' ''uint x''] =
     Inr [\<lparr>tplDocsHTML = [], tplCodeHTML = [], SectionTag = ''1''\<rparr>,
          \<lparr>tplDocsHTML = [], tplCodeHTML = [], SectionTag = ''Foo''\<rparr>,
          \<lparr>tplDocsHTML = [], tplCodeHTML = [], SectionTag = ''3''\<rparr>] \<and>
   getSectionTag (int 2 + 1) ''uint x'' = Inr ''3''"
proof -
  let ?secs = "[save [] ''f()'' ''f()'', save [] ''dev Foo bar'' ''dev Foo bar'',
                save [] ''uint x'' ''uint x'']"
  let ?array = "[\<lparr>tplDocsHTML = [], tplCodeHTML = [], SectionTag = ''1''\<rparr>,
                 \<lparr>tplDocsHTML = [], tplCodeHTML = [], SectionTag = ''Foo''\<rparr>,
                 \<lparr>tplDocsHTML = [], tplCodeHTML = [], SectionTag = ''3''\<rparr>]"
  have a: "\<not> is_declaration ''uint x''" by code_simp
  have b: "is_declaration ''dev Foo bar'' \<and> CHR '' '' \<in> set ''dev Foo bar''" by code_simp
  have g: "generateHTML ''a.sol'' ?secs = Inr ?array" by code_simp
  have s3: "Sprintf_d 3 = ''3''" by code_simp
  have tr: "TrimSpace ''Foo'' = ''Foo''"
    by code_simp
  from section_tag_derivation [of "''uint x''" 3 "''a.sol''" ?secs ?array] a g
  have 1: "getSectionTag 3 ''uint x'' = Inr ''3''"
    and 2: "\<forall>i < length ?secs.
              getSectionTag (int i + 1) (firstCodeLine (?secs ! i)) =
                Inr (SectionTag (?array ! i))"
    by (simp_all add: s3)
  from section_tag_derivation [of "''dev Foo bar''" 2 "''a.sol''" ?secs ?array] b
  have 3: "getSectionTag 2 ''dev Foo bar'' = Inr ''Foo''"
    by (simp add: tr)
  from 2 [rule_format, of 2] have 4: "getSectionTag (int 2 + 1) ''uint x'' = Inr ''3''"
    by (simp add: save_def)
  from a b g 1 3 4 show ?thesis by blast
qed

text \<open>The line \<open>dev\<close>, two blanks, \<open>Foo\<close>: its second token is \<open>Foo\<close>, its tag is empty.\<close>

theorem section_tag_counterexample:
  "is_declaration ''dev  Foo'' \<and>
   whitespace_tokens ''dev  Foo'' = [''dev'', ''Foo''] \<and>
   getSectionTag 1 ''dev  Foo'' = Inr []"
  by code_simp

text \<open>
  Claim C7. When \<open>generateHTML\<close> returns its list and the code of section \<open>i\<close> starts
  with \<open>pragma\<close> or \<open>import\<close>, entry \<open>i\<close> of the list has an empty \<open>CodeHTML\<close>, and the
  list is the same whatever HTML the highlighter gave that section. The tag of the entry
  is the tag of the section, and its prose is the rendered prose of the section with its
  references linked and its identifier emphasised, as for every other section.
\<close>

theorem pragma_import_code_suppressed:
  assumes "generateHTML source sections = Inr array"
    and "i < length sections"
    and "HasPrefix (codeText (sections ! i)) ''pragma'' \<or>
         HasPrefix (codeText (sections ! i)) ''import''"
  shows "tplCodeHTML (array ! i) = [] \<and>
         generateHTML source (sections [i := (sections ! i)\<lparr>CodeHTML := html\<rparr>]) = Inr array \<and>
         getSectionTag (int i + 1) (firstCodeLine (sections ! i)) =
           Inr (SectionTag (array ! i)) \<and>
         (\<exists>ref. getFieldOrType (firstCodeLine (sections ! i)) = Inr ref \<and>
                highlightRefs (referenceRx_ReplaceAll (DocsHTML (sections ! i))) ref =
                  Inr (tplDocsHTML (array ! i)))"
proof -
  from assms(1) have l: "generateHTML_loop sections 0 = Inr array"
    by (simp add: generateHTML_def)
  from generateHTML_loop_nth [OF l] assms(2,3)
  have "tplCodeHTML (array ! i) = []"
    and "getSectionTag (int i + 1) (firstCodeLine (sections ! i)) =
           Inr (SectionTag (array ! i))"
    and "\<exists>ref. getFieldOrType (firstCodeLine (sections ! i)) = Inr ref \<and>
                highlightRefs (referenceRx_ReplaceAll (DocsHTML (sections ! i))) ref =
                  Inr (tplDocsHTML (array ! i))"
    by auto
  moreover have "generateHTML source (sections [i := (sections ! i)\<lparr>CodeHTML := html\<rparr>]) =
                 Inr array"
    using generateHTML_loop_suppressed [OF assms(2,3), of html 0] l
    by (simp add: generateHTML_def)
  ultimately show ?thesis by blast
qed

theorem pragma_import_code_suppressed_witness:
  "generateHTML ''a.sol''
     [\<lparr>docsText = ''uses x'', codeText = ''import x'', firstCodeLine = ''import x'',
       DocsHTML = ''<p>uses x</p>'', CodeHTML = ''<b>import</b> x''\<rparr>] =
     Inr [\<lparr>tplDocsHTML = ''<p>uses x</p>'', tplCodeHTML = [], SectionTag = ''1''\<rparr>] \<and>
   generateHTML ''a.sol''
     [\<lparr>docsText = ''uses x'', codeText = ''import x'', firstCodeLine = ''import x'',
       DocsHTML = ''<p>uses x</p>'', CodeHTML = ''other''\<rparr>] =
     Inr [\<lparr>tplDocsHTML = ''<p>uses x</p>'', tplCodeHTML = [], SectionTag = ''1''\<rparr>] \<and>
   getSectionTag 1 ''import x'' = Inr ''1''"
proof -
  let ?sec = "\<lparr>docsText = ''uses x'', codeText = ''import x'', firstCodeLine = ''import x'',
               DocsHTML = ''<p>uses x</p>'', CodeHTML = ''<b>import</b> x''\<rparr>"
  let ?array = "[\<lparr>tplDocsHTML = ''<p>uses x</p>'', tplCodeHTML = [], SectionTag = ''1''\<rparr>]"
  have g: "generateHTML ''a.sol'' [?sec] = Inr ?array" by code_simp
  have i: "(0::nat) < length [?sec]" by simp
  have h: "HasPrefix (codeText ([?sec] ! 0)) ''pragma'' \<or>
           HasPrefix (codeText ([?sec] ! 0)) ''import''" by code_simp
  from pragma_import_code_suppressed [OF g i h, of "''other''"] g
  show ?thesis by simp
qed

section \<open>The two loops of highlight\<close>

lemma write_sections_more:
  "es \<noteq> [] \<Longrightarrow>
   write_sections language (e # es) =
   Write (codeText e) # WriteString (dividerText language) # write_sections language es"
  by simp

lemma write_sections_count:
  "sections \<noteq> [] \<Longrightarrow>
   length (filter is_WriteString (write_sections language sections)) = length sections - 1 \<and>
   length (write_sections language sections) = 2 * length sections - 1"
proof (induction sections)
  case Nil
  then show ?case by simp
next
  case (Cons e es)
  show ?case
  proof (cases "es = []")
    case True
    then show ?thesis by simp
  next
    case False
    with Cons.IH have "length (filter is_WriteString (write_sections language es)) = length es - 1"
      and "length (write_sections language es) = 2 * length es - 1" by auto
    moreover have "0 < length es" using False by simp
    ultimately show ?thesis using False
      by (simp add: write_sections_more del: write_sections.simps)
  qed
qed

lemma write_sections_nth:
  "i < length sections \<Longrightarrow>
   write_sections language sections ! (2 * i) = Write (codeText (sections ! i)) \<and>
   (Suc i < length sections \<longrightarrow>
      write_sections language sections ! (2 * i + 1) = WriteString (dividerText language))"
proof (induction sections arbitrary: i)
  case Nil
  then show ?case by simp
next
  case (Cons e es)
  show ?case
  proof (cases i)
    case 0
    then show ?thesis by simp
  next
    case (Suc j)
    with Cons.prems have j: "j < length es" by simp
    then have ne: "es \<noteq> []" by auto
    from Cons.IH [OF j] show ?thesis
      using Suc ne by (simp add: write_sections_more del: write_sections.simps)
  qed
qed

lemma split_fragments_length:
  "length (split_fragments markdown language buf sections) = length sections"
  by (induction sections arbitrary: buf) (auto simp: Let_def)

lemma split_fragments_nth:
  "i < length sections \<Longrightarrow>
   split_fragments markdown language buf sections ! i =
   (sections ! i)\<lparr>CodeHTML := highlightStart @ fragment_at language buf i @ highlightEnd,
                  DocsHTML := markdown (docsText (sections ! i))\<rparr>"
proof (induction sections arbitrary: buf i)
  case Nil
  then show ?case by simp
next
  case (Cons e es)
  show ?case
  proof (cases i)
    case 0
    then show ?thesis by (simp add: Let_def divider_index_def)
  next
    case (Suc j)
    with Cons.prems have "j < length es" by simp
    from Cons.IH [OF this] show ?thesis
      using Suc by (simp add: Let_def divider_index_def)
  qed
qed

lemma dividerHTML_match_Nil: "dividerHTML_match language [] = None"
  by (simp add: dividerHTML_match_def HasPrefix_def)

lemma dividerHTML_FindIndex_Nil: "dividerHTML_FindIndex language [] = None"
  by (simp add: dividerHTML_FindIndex_def dividerHTML_match_Nil)

lemma split_fragments_empty_buffer:
  "map CodeHTML (split_fragments markdown language [] sections) =
   replicate (length sections) (highlightStart @ highlightEnd)"
  by (induction sections) (auto simp: Let_def dividerHTML_FindIndex_Nil)


text \<open>\<open>highlight\<close> returns when the language is in the table and both pipes were made,
  and only then.\<close>

lemma highlight_returns:
  assumes "getLanguage source = Some language" "StdinPipe_ok w" "StdoutPipe_ok w"
  shows "highlight w source sections =
         Inr (write_sections language sections,
              split_fragments (MarkdownCommon w) language
                (Replace_nil (Replace_nil
                   (pygmentize w (concat (map written (write_sections language sections))))
                   highlightStart) highlightEnd)
                sections)"
  using assms by (simp add: highlight_def Let_def)

lemma highlight_Inr:
  assumes "highlight w source sections = Inr (writes, sections')"
  shows "\<exists>language. getLanguage source = Some language \<and> StdinPipe_ok w \<and> StdoutPipe_ok w"
  using assms by (auto simp: highlight_def Let_def split: option.splits if_splits)

section \<open>No divider inside a fragment\<close>

lemma HasPrefix_append: "HasPrefix a p \<Longrightarrow> HasPrefix (a @ b) p"
  by (auto simp: HasPrefix_def)

lemma HasPrefix_one_append: "a \<noteq> [] \<Longrightarrow> HasPrefix (a @ b) [c] \<longleftrightarrow> HasPrefix a [c]"
  by (cases a) (auto simp: HasPrefix_def)

lemma HasPrefix_length: "HasPrefix a p \<Longrightarrow> length p \<le> length a"
  by (simp add: HasPrefix_def)

lemma HasPrefix_hd: "HasPrefix a (c # p) \<Longrightarrow> a \<noteq> [] \<and> hd a = c"
  by (cases a) (auto simp: HasPrefix_def)

text \<open>A divider at the start of a text is still one when the text goes on.\<close>

lemma dividerHTML_match_append:
  assumes "dividerHTML_match language u = Some m"
  shows "\<exists>m'. dividerHTML_match language (u @ v) = Some m'"
proof -
  let ?P = "\<lambda>c. c = NL"
  let ?opening = "''<span class='' @ [DQ] @ ''c''"
  let ?closing = "[DQ] @ ''>'' @ symbol language @ ''DIVIDER</span>''"
  let ?r1 = "dropWhile ?P u"
  let ?r2 = "drop (length ?opening) ?r1"
  let ?d = "if HasPrefix ?r2 ''1'' then 1 else 0 :: nat"
  let ?r3 = "drop ?d ?r2"
  from assms have o: "HasPrefix ?r1 ?opening" and c: "HasPrefix ?r3 ?closing"
    by (auto simp: dividerHTML_match_def Let_def split: if_splits)
  from HasPrefix_hd [of ?r1 "CHR ''<''"] o have r1: "?r1 \<noteq> []" "hd ?r1 = CHR ''<''"
    by auto
  then have "\<exists>x \<in> set u. \<not> ?P x"
    by (metis (mono_tags, lifting) dropWhile_eq_Nil_conv)
  then have dw: "dropWhile ?P (u @ v) = ?r1 @ v"
    by auto
  have o': "HasPrefix (?r1 @ v) ?opening" using o by (rule HasPrefix_append)
  have lo: "length ?opening \<le> length ?r1" using o by (rule HasPrefix_length)
  have r2: "drop (length ?opening) (?r1 @ v) = ?r2 @ v" using lo by simp
  have r3ne: "?r3 \<noteq> []" using HasPrefix_hd [of ?r3 DQ] c by auto
  then have r2ne: "?r2 \<noteq> []" by auto
  have d: "(if HasPrefix (?r2 @ v) ''1'' then 1 else 0 :: nat) = ?d"
    using HasPrefix_one_append [OF r2ne, of v "CHR ''1''"] by simp
  have ld: "?d \<le> length ?r2" using r2ne by (cases ?r2) auto
  have r3: "drop ?d (?r2 @ v) = ?r3 @ v" using ld by simp
  have c': "HasPrefix (?r3 @ v) ?closing" using c by (rule HasPrefix_append)
  show ?thesis
    using o' c' unfolding dividerHTML_match_def Let_def dw r2 d r3
    by (simp del: append.simps)
qed

lemma dividerHTML_find_Some:
  "dividerHTML_find language i t = Some (a, b) \<Longrightarrow>
   i \<le> a \<and> a - i \<le> length t \<and>
   (\<forall>j < a - i. dividerHTML_match language (drop j t) = None)"
proof (induction t arbitrary: i)
  case Nil
  then show ?case by (auto split: option.splits)
next
  case (Cons c cs)
  show ?case
  proof (cases "dividerHTML_match language (c # cs)")
    case None
    with Cons.prems have f: "dividerHTML_find language (Suc i) cs = Some (a, b)" by simp
    from Cons.IH [OF f] have ia: "Suc i \<le> a" and al: "a - Suc i \<le> length cs"
      and nm: "\<forall>j < a - Suc i. dividerHTML_match language (drop j cs) = None" by auto
    have "\<forall>j < a - i. dividerHTML_match language (drop j (c # cs)) = None"
    proof (intro allI impI)
      fix j assume j: "j < a - i"
      show "dividerHTML_match language (drop j (c # cs)) = None"
      proof (cases j)
        case 0
        with None show ?thesis by simp
      next
        case (Suc k)
        with j have "k < a - Suc i" by simp
        with nm Suc show ?thesis by simp
      qed
    qed
    with ia al show ?thesis by auto
  next
    case (Some n)
    with Cons.prems show ?thesis by auto
  qed
qed

lemma dividerHTML_find_NoneI:
  "(\<And>j. j \<le> length t \<Longrightarrow> dividerHTML_match language (drop j t) = None) \<Longrightarrow>
   dividerHTML_find language i t = None"
proof (induction t arbitrary: i)
  case Nil
  then show ?case by (auto split: option.splits)
next
  case (Cons c cs)
  have h: "dividerHTML_match language (c # cs) = None" using Cons.prems [of 0] by simp
  have "dividerHTML_find language (Suc i) cs = None"
  proof (rule Cons.IH)
    fix j assume "j \<le> length cs"
    then show "dividerHTML_match language (drop j cs) = None"
      using Cons.prems [of "Suc j"] by simp
  qed
  with h show ?case by simp
qed

text \<open>The leftmost divider of a buffer starts where no earlier divider starts, so the
  text before it has none.\<close>

lemma fragment_has_no_divider_0:
  "dividerHTML_FindIndex language (take (fst (divider_index language buf)) buf) = None"
proof (cases "dividerHTML_FindIndex language buf")
  case None
  then show ?thesis by (simp add: divider_index_def)
next
  case (Some ab)
  obtain a b where ab: "ab = (a, b)" by (cases ab)
  from Some ab have f: "dividerHTML_find language 0 buf = Some (a, b)"
    by (simp add: dividerHTML_FindIndex_def)
  from dividerHTML_find_Some [OF f] have al: "a \<le> length buf"
    and nm: "\<forall>j < a. dividerHTML_match language (drop j buf) = None" by auto
  have "dividerHTML_find language 0 (take a buf) = None"
  proof (rule dividerHTML_find_NoneI)
    fix j assume j: "j \<le> length (take a buf)"
    show "dividerHTML_match language (drop j (take a buf)) = None"
    proof (cases "j < a")
      case True
      have "drop j (take a buf @ drop a buf) =
            drop j (take a buf) @ drop (j - length (take a buf)) (drop a buf)"
        by (rule drop_append)
      then have sp: "drop j buf = drop j (take a buf) @ drop a buf"
        using True al by simp
      show ?thesis
      proof (rule ccontr)
        assume "dividerHTML_match language (drop j (take a buf)) \<noteq> None"
        then obtain m where "dividerHTML_match language (drop j (take a buf)) = Some m" by auto
        from dividerHTML_match_append [OF this, of "drop a buf"] sp nm True
        show False by auto
      qed
    next
      case False
      with j al have "drop j (take a buf) = []" by simp
      then show ?thesis by (simp add: dividerHTML_match_def HasPrefix_def)
    qed
  qed
  then show ?thesis using Some ab by (simp add: divider_index_def dividerHTML_FindIndex_def)
qed

lemma fragment_has_no_divider:
  "dividerHTML_FindIndex language (fragment_at language buf i) = None"
  by (induction i arbitrary: buf) (auto simp: fragment_has_no_divider_0)

section \<open>Properties of highlight\<close>

text \<open>
  Claim C2. For \<open>N \<ge> 1\<close> sections, a language of the table and the two pipes made,
  \<open>highlight\<close> returns, and it has made \<open>2N - 1\<close> writes to the input pipe: the code of
  section \<open>i\<close> is write \<open>2i\<close>, and the divider is write \<open>2i + 1\<close> for every section but
  the last, so \<open>N - 1\<close> dividers are written, one between two sections and none after
  the last. It returns \<open>N\<close> sections in the order of its input: section \<open>i\<close> is the
  section \<open>i\<close> it was given, with the Markdown of its prose and with fragment \<open>i\<close> of
  the output buffer between the two wrapper marks. No fragment has a divider in it.
\<close>

theorem highlight_dividers_and_fragments:
  assumes "getLanguage source = Some language"
    and "StdinPipe_ok w" and "StdoutPipe_ok w"
    and "sections \<noteq> []"
  shows "\<exists>writes sections'.
           highlight w source sections = Inr (writes, sections') \<and>
           length (filter is_WriteString writes) = length sections - 1 \<and>
           length writes = 2 * length sections - 1 \<and>
           (\<forall>i < length sections.
              writes ! (2 * i) = Write (codeText (sections ! i)) \<and>
              (Suc i < length sections \<longrightarrow>
                 writes ! (2 * i + 1) = WriteString (dividerText language))) \<and>
           length sections' = length sections \<and>
           (\<forall>i < length sections.
              sections' ! i =
                (sections ! i)
                  \<lparr>CodeHTML := highlightStart @
                     fragment_at language
                       (Replace_nil (Replace_nil (pygmentize w (concat (map written writes)))
                          highlightStart) highlightEnd) i @ highlightEnd,
                   DocsHTML := MarkdownCommon w (docsText (sections ! i))\<rparr> \<and>
              dividerHTML_FindIndex language
                (fragment_at language
                   (Replace_nil (Replace_nil (pygmentize w (concat (map written writes)))
                      highlightStart) highlightEnd) i) = None)"
proof -
  let ?writes = "write_sections language sections"
  let ?buf = "Replace_nil (Replace_nil (pygmentize w (concat (map written ?writes)))
                highlightStart) highlightEnd"
  let ?secs = "split_fragments (MarkdownCommon w) language ?buf sections"
  have h: "highlight w source sections = Inr (?writes, ?secs)"
    using assms(1-3) by (rule highlight_returns)
  have c: "length (filter is_WriteString ?writes) = length sections - 1 \<and>
           length ?writes = 2 * length sections - 1"
    using write_sections_count [OF assms(4), of language] .
  have n: "\<forall>i < length sections.
            ?writes ! (2 * i) = Write (codeText (sections ! i)) \<and>
            (Suc i < length sections \<longrightarrow>
               ?writes ! (2 * i + 1) = WriteString (dividerText language))"
    using write_sections_nth [of _ sections language] by simp
  have l: "length ?secs = length sections"
    by (rule split_fragments_length)
  have f: "\<forall>i < length sections.
            ?secs ! i =
              (sections ! i)
                \<lparr>CodeHTML := highlightStart @ fragment_at language ?buf i @ highlightEnd,
                 DocsHTML := MarkdownCommon w (docsText (sections ! i))\<rparr> \<and>
            dividerHTML_FindIndex language (fragment_at language ?buf i) = None"
    by (simp add: split_fragments_nth fragment_has_no_divider)
  from h c n l f show ?thesis by blast
qed

theorem highlight_dividers_and_fragments_witness:
  "highlight toy_world ''a.sol''
     [save ''a'' (''x'' @ [NL]) ''x'', save ''b'' (''y'' @ [NL]) ''y''] =
     Inr ([Write (''x'' @ [NL]), WriteString (NL # ''///DIVIDER'' @ [NL]), Write (''y'' @ [NL])],
          [\<lparr>docsText = ''a'', codeText = ''x'' @ [NL], firstCodeLine = ''x'',
            DocsHTML = ''a'', CodeHTML = highlightStart @ ''x'' @ highlightEnd\<rparr>,
           \<lparr>docsText = ''b'', codeText = ''y'' @ [NL], firstCodeLine = ''y'',
            DocsHTML = ''b'', CodeHTML = highlightStart @ ''y'' @ [NL] @ highlightEnd\<rparr>]) \<and>
   length (filter is_WriteString
     [Write (''x'' @ [NL]), WriteString (NL # ''///DIVIDER'' @ [NL]), Write (''y'' @ [NL])]) =
     length [save ''a'' (''x'' @ [NL]) ''x'', save ''b'' (''y'' @ [NL]) ''y''] - 1"
proof -
  let ?l = "\<lparr>name = ''solidity'', symbol = ''///'', dividerText = NL # ''///DIVIDER'' @ [NL]\<rparr>"
  let ?secs = "[save ''a'' (''x'' @ [NL]) ''x'', save ''b'' (''y'' @ [NL]) ''y'']"
  let ?writes = "[Write (''x'' @ [NL]), WriteString (NL # ''///DIVIDER'' @ [NL]),
                  Write (''y'' @ [NL])]"
  let ?secs' = "[\<lparr>docsText = ''a'', codeText = ''x'' @ [NL], firstCodeLine = ''x'',
            DocsHTML = ''a'', CodeHTML = highlightStart @ ''x'' @ highlightEnd\<rparr>,
           \<lparr>docsText = ''b'', codeText = ''y'' @ [NL], firstCodeLine = ''y'',
            DocsHTML = ''b'', CodeHTML = highlightStart @ ''y'' @ [NL] @ highlightEnd\<rparr>]"
  have h: "highlight toy_world ''a.sol'' ?secs = Inr (?writes, ?secs')" by code_simp
  have i: "StdinPipe_ok toy_world" and o: "StdoutPipe_ok toy_world"
    by (simp_all add: toy_world_def)
  have n: "?secs \<noteq> []" by simp
  from highlight_dividers_and_fragments [OF getLanguage_sol i o n]
  obtain writes sections' where
    r: "highlight toy_world ''a.sol'' ?secs = Inr (writes, sections')"
    and c: "length (filter is_WriteString writes) = length ?secs - 1"
    by blast
  from r h have "writes = ?writes" by simp
  with c h show ?thesis by blast
qed

text \<open>
  Claim C5. The second loop of \<open>highlight\<close> has no failing branch. At any turn, when the
  rest of the output buffer has no divider, the section of that turn gets the whole rest
  between the wrapper marks and every later section gets the two marks with nothing
  between them: the buffer is empty from then on, and the empty buffer has no divider.
  \<open>highlight\<close> itself returns whenever the language is in the table and the two pipes
  were made, with the sections of that loop.
\<close>

theorem missing_divider_gives_rest:
  "(dividerHTML_FindIndex language buf = None \<longrightarrow>
      map CodeHTML (split_fragments markdown language buf (e # es)) =
        (highlightStart @ buf @ highlightEnd)
          # replicate (length es) (highlightStart @ highlightEnd)) \<and>
   dividerHTML_FindIndex language [] = None \<and>
   (getLanguage source = Some language \<and> StdinPipe_ok w \<and> StdoutPipe_ok w \<longrightarrow>
      (\<exists>writes. highlight w source sections =
         Inr (writes,
              split_fragments (MarkdownCommon w) language
                (Replace_nil (Replace_nil (pygmentize w (concat (map written writes)))
                   highlightStart) highlightEnd)
                sections)))"
proof (intro conjI impI)
  assume "dividerHTML_FindIndex language buf = None"
  then show "map CodeHTML (split_fragments markdown language buf (e # es)) =
        (highlightStart @ buf @ highlightEnd)
          # replicate (length es) (highlightStart @ highlightEnd)"
    by (simp add: Let_def split_fragments_empty_buffer)
next
  show "dividerHTML_FindIndex language [] = None"
    by (rule dividerHTML_FindIndex_Nil)
next
  assume "getLanguage source = Some language \<and> StdinPipe_ok w \<and> StdoutPipe_ok w"
  then have "highlight w source sections =
         Inr (write_sections language sections,
              split_fragments (MarkdownCommon w) language
                (Replace_nil (Replace_nil
                   (pygmentize w (concat (map written (write_sections language sections))))
                   highlightStart) highlightEnd)
                sections)"
    by (simp add: highlight_returns)
  then show "\<exists>writes. highlight w source sections =
         Inr (writes,
              split_fragments (MarkdownCommon w) language
                (Replace_nil (Replace_nil (pygmentize w (concat (map written writes)))
                   highlightStart) highlightEnd)
                sections)"
    by blast
qed

theorem missing_divider_gives_rest_witness:
  "dividerHTML_FindIndex
     \<lparr>name = ''solidity'', symbol = ''///'', dividerText = NL # ''///DIVIDER'' @ [NL]\<rparr>
     ''<b>x</b>'' = None \<and>
   map CodeHTML
     (split_fragments (\<lambda>docs. docs)
        \<lparr>name = ''solidity'', symbol = ''///'', dividerText = NL # ''///DIVIDER'' @ [NL]\<rparr>
        ''<b>x</b>'' [save [] ''x'' ''x'', save [] ''y'' ''y'', save [] ''z'' ''z'']) =
     [highlightStart @ ''<b>x</b>'' @ highlightEnd, highlightStart @ highlightEnd,
      highlightStart @ highlightEnd] \<and>
   (\<exists>writes. highlight failed_start ''a.sol'' [save [] ''x'' ''x''] =
      Inr (writes,
           split_fragments (MarkdownCommon failed_start)
             \<lparr>name = ''solidity'', symbol = ''///'', dividerText = NL # ''///DIVIDER'' @ [NL]\<rparr>
             (Replace_nil (Replace_nil (pygmentize failed_start (concat (map written writes)))
                highlightStart) highlightEnd)
             [save [] ''x'' ''x'']))"
proof -
  let ?l = "\<lparr>name = ''solidity'', symbol = ''///'', dividerText = NL # ''///DIVIDER'' @ [NL]\<rparr>"
  have a: "dividerHTML_FindIndex ?l ''<b>x</b>'' = None" by code_simp
  have b: "getLanguage ''a.sol'' = Some ?l \<and> StdinPipe_ok failed_start \<and>
           StdoutPipe_ok failed_start"
    by (simp add: getLanguage_sol failed_start_def)
  from missing_divider_gives_rest
         [of ?l "''<b>x</b>''" "\<lambda>docs. docs" "save [] ''x'' ''x''"
             "[save [] ''y'' ''y'', save [] ''z'' ''z'']" "''a.sol''" failed_start
             "[save [] ''x'' ''x'']"] a b
  show ?thesis by simp
qed




section \<open>Runes and the steps of a replacement\<close>

text \<open>
  A rune of more than one byte is a first byte and continuation bytes, so no step of a
  replacement jumps over a byte that is not a continuation byte.
\<close>

lemma utf8_len_le: "utf8_len bs \<le> length bs"
  by (cases bs rule: utf8_len.cases) (auto split: list.splits)

lemma utf8_len_cont: "0 < i \<Longrightarrow> i < utf8_len bs \<Longrightarrow> cont_byte (bs ! i)"
  by (cases bs rule: utf8_len.cases)
     (auto split: list.splits if_splits simp: nth_Cons' cont_byte_def)

lemma utf8_len_hd: "0 < utf8_len bs \<Longrightarrow> \<not> cont_byte (hd bs)"
  by (cases bs rule: utf8_len.cases) (auto split: if_splits simp: cont_byte_def)

lemma rune_len_le: "rune_len t \<le> length t"
  using utf8_len_le [of "map of_char (take 4 t)"] by (simp add: rune_len_def)

lemma rune_len_cont:
  assumes "0 < i" "i < rune_len t"
  shows "cont_byte (of_char (t ! i))"
proof -
  let ?bs = "map of_char (take 4 t) :: nat list"
  have l: "i < length ?bs"
    using assms(2) utf8_len_le [of ?bs] by (simp add: rune_len_def)
  from utf8_len_cont [OF assms(1), of ?bs] assms(2) have "cont_byte (?bs ! i)"
    by (simp add: rune_len_def)
  then show ?thesis using l by simp
qed

lemma rune_len_hd: "0 < rune_len t \<Longrightarrow> \<not> cont_byte (of_char (hd t))"
proof -
  assume a: "0 < rune_len t"
  then have "t \<noteq> []" by (auto simp: rune_len_def)
  then have "hd (map of_char (take 4 t) :: nat list) = of_char (hd t)"
    by (cases t) auto
  with utf8_len_hd [of "map of_char (take 4 t)"] a show ?thesis
    by (simp add: rune_len_def)
qed

lemma space_not_cont: "rx_space c \<Longrightarrow> \<not> cont_byte (of_char c)"
  by (auto simp: rx_space_def cont_byte_def)

lemma space_rune_len: "t \<noteq> [] \<Longrightarrow> rx_space (hd t) \<Longrightarrow> rune_len t = 1"
  by (cases t) (auto simp: rune_len_def rx_space_def)

lemma step_inside:
  assumes "s \<noteq> []" and "r = [] \<or> \<not> cont_byte (of_char (hd r))"
  shows "max 1 (rune_len (s @ r)) \<le> length s"
proof (rule ccontr)
  assume "\<not> max 1 (rune_len (s @ r)) \<le> length s"
  then have g: "length s < rune_len (s @ r)" using assms(1) by (cases s) auto
  have "0 < length s" using assms(1) by simp
  from rune_len_cont [OF this g] have c: "cont_byte (of_char ((s @ r) ! length s))" .
  from g rune_len_le [of "s @ r"] have "r \<noteq> []" by auto
  then have "(s @ r) ! length s = hd r" by (simp add: nth_append hd_conv_nth)
  with c assms(2) \<open>r \<noteq> []\<close> show False by simp
qed

lemma regexp_copy:
  assumes "\<And>j. j < length s \<Longrightarrow> m (drop j s @ r) = None"
    and "r = [] \<or> \<not> cont_byte (of_char (hd r))"
  shows "regexp_ReplaceAll m (s @ r) = s @ regexp_ReplaceAll m r"
  using assms(1)
proof (induction s rule: length_induct)
  case (1 s)
  show ?case
  proof (cases "s = []")
    case True
    then show ?thesis by simp
  next
    case False
    let ?w = "max 1 (rune_len (s @ r))"
    have w: "?w \<le> length s" using step_inside [OF False assms(2)] .
    have w0: "0 < ?w" by simp
    have n: "m (s @ r) = None" using 1(2) [of 0] False by simp
    have st: "regexp_ReplaceAll m (s @ r) = take ?w (s @ r) @ regexp_ReplaceAll m (drop ?w (s @ r))"
      using False n by (subst regexp_ReplaceAll.simps) simp
    have tk: "take ?w (s @ r) = take ?w s" and dr: "drop ?w (s @ r) = drop ?w s @ r"
      using w by auto
    have "length (drop ?w s) < length s" using False w0 by simp
    moreover have "\<And>j. j < length (drop ?w s) \<Longrightarrow> m (drop j (drop ?w s) @ r) = None"
    proof -
      fix j assume "j < length (drop ?w s)"
      then have "j + ?w < length s" by simp
      from 1(2) [OF this] show "m (drop j (drop ?w s) @ r) = None" by (simp add: add.commute)
    qed
    ultimately have "regexp_ReplaceAll m (drop ?w s @ r) = drop ?w s @ regexp_ReplaceAll m r"
      using 1(1) by blast
    with st tk dr show ?thesis by (metis append.assoc append_take_drop_id)
  qed
qed


section \<open>The identifier as a literal\<close>

text \<open>
  For an identifier without the rune U+FFFD the literal of the three expressions matches
  exactly the texts that start with the bytes of the identifier.
\<close>

lemma runes_Nil_iff: "runes t = Some [] \<longleftrightarrow> t = []"
  by (subst runes.simps) auto

lemma runes_Cons:
  "runes t = Some (e # es) \<Longrightarrow>
   0 < rune_len t \<and> e = take (rune_len t) t \<and> runes (drop (rune_len t) t) = Some es"
  by (subst (asm) runes.simps) (auto split: if_splits)

lemma HasPrefix_Nil [simp]: "HasPrefix t []"
  by (simp add: HasPrefix_def)

lemma HasPrefix_append_iff:
  "HasPrefix t (e @ r) \<longleftrightarrow> HasPrefix t e \<and> HasPrefix (drop (length e) t) r"
proof
  assume a: "HasPrefix t (e @ r)"
  then have l: "length e + length r \<le> length t" and tk: "take (length e + length r) t = e @ r"
    by (auto simp: HasPrefix_def)
  from tk have "take (length e) (take (length e + length r) t) = e" by simp
  then have 1: "take (length e) t = e" by (simp add: min_def)
  from tk have "drop (length e) (take (length e + length r) t) = r" by simp
  then have 2: "take (length r) (drop (length e) t) = r" by (simp add: drop_take)
  from l 1 2 show "HasPrefix t e \<and> HasPrefix (drop (length e) t) r"
    by (auto simp: HasPrefix_def)
next
  assume a: "HasPrefix t e \<and> HasPrefix (drop (length e) t) r"
  then have "t = e @ drop (length e) t" "drop (length e) t = r @ drop (length r) (drop (length e) t)"
    by (metis HasPrefix_def append_take_drop_id)+
  then obtain z where "t = e @ r @ z" by metis
  then show "HasPrefix t (e @ r)" by (simp add: HasPrefix_def)
qed

lemma match_literal_plain:
  "runes ref = Some rs \<Longrightarrow> replacement \<notin> set rs \<Longrightarrow>
   match_literal rs t = (if HasPrefix t ref then Some (length ref) else None)"
proof (induction rs arbitrary: ref t)
  case Nil
  then show ?case by (simp add: runes_Nil_iff)
next
  case (Cons e es)
  let ?w = "rune_len ref"
  from runes_Cons [OF Cons.prems(1)] have w: "0 < ?w" and e: "e = take ?w ref"
    and r: "runes (drop ?w ref) = Some es" by auto
  have le: "length e = ?w" using e rune_len_le [of ref] by simp
  have ref: "ref = e @ drop ?w ref" using e by simp
  have ne: "e \<noteq> replacement" and nes: "replacement \<notin> set es" using Cons.prems(2) by auto
  have ih: "match_literal es u = (if HasPrefix u (drop ?w ref) then Some (length (drop ?w ref)) else None)" for u
    using Cons.IH [OF r nes] .
  have hp: "HasPrefix t ref \<longleftrightarrow> HasPrefix t e \<and> HasPrefix (drop (length e) t) (drop ?w ref)"
    using HasPrefix_append_iff [of t e "drop ?w ref"] ref by simp
  have len: "length e + length (drop ?w ref) = length ref"
    using le rune_len_le [of ref] by simp
  show ?case
  proof (cases "HasPrefix t e")
    case True
    have "match_literal (e # es) t =
      map_option (\<lambda>n. length e + n) (match_literal es (drop (length e) t))"
      using True by simp
    also have "\<dots> = (if HasPrefix (drop (length e) t) (drop ?w ref)
        then Some (length e + length (drop ?w ref)) else None)"
      by (simp only: ih option.map if_distrib [of "map_option (\<lambda>n. length e + n)"])
    also have "\<dots> = (if HasPrefix t ref then Some (length ref) else None)"
      by (simp only: hp True len simp_thms)
    finally show ?thesis .
  next
    case False
    then have "match_literal (e # es) t = None" using ne by simp
    moreover have "\<not> HasPrefix t ref" using hp False by blast
    ultimately show ?thesis by simp
  qed
qed


lemma plain_ref_literal:
  assumes "plain_ref ref" and "runes ref = Some rs"
  shows "match_literal rs t = (if HasPrefix t ref then Some (length ref) else None)"
proof -
  from assms have "replacement \<notin> set rs" by (auto simp: plain_ref_def)
  then show ?thesis by (rule match_literal_plain [OF assms(2)])
qed

lemma plain_ref_facts:
  assumes "plain_ref ref"
  shows "ref \<noteq> []" and "\<not> rx_space (hd ref)" and "\<not> cont_byte (of_char (hd ref))"
    and "\<forall>c\<in>set ref. \<not> rx_space c" and "CHR ''>'' \<notin> set ref"
proof -
  from assms obtain rs where rs: "runes ref = Some rs" and ne: "ref \<noteq> []"
    and la: "list_all (\<lambda>c. \<not> rx_space c \<and> c \<noteq> CHR ''>'') ref"
    by (auto simp: plain_ref_def split: option.splits)
  show "ref \<noteq> []" by (rule ne)
  obtain e es where "rs = e # es" using rs ne by (cases rs) (auto simp: runes_Nil_iff)
  with runes_Cons [of ref e es] rs have "0 < rune_len ref" by simp
  then show "\<not> cont_byte (of_char (hd ref))" by (rule rune_len_hd)
  show "\<not> rx_space (hd ref)" using la ne by (cases ref) auto
  show "\<forall>c\<in>set ref. \<not> rx_space c" using la by (simp add: list_all_iff)
  show "CHR ''>'' \<notin> set ref" using la by (auto simp: list_all_iff)
qed

lemma HasPrefix_iff: "HasPrefix t r \<longleftrightarrow> (\<exists>z. t = r @ z)"
proof
  assume "HasPrefix t r"
  then have "t = r @ drop (length r) t"
    using append_take_drop_id [of "length r" t] by (simp add: HasPrefix_def)
  then show "\<exists>z. t = r @ z" ..
next
  assume "\<exists>z. t = r @ z"
  then show "HasPrefix t r" by (auto simp: HasPrefix_def)
qed

lemma HasPrefix_token:
  assumes "\<forall>c\<in>set ref. \<not> rx_space c" and "R = [] \<or> rx_space (hd R)"
  shows "HasPrefix (x @ R) ref \<longleftrightarrow> HasPrefix x ref"
proof
  assume "HasPrefix x ref"
  then show "HasPrefix (x @ R) ref" by (auto simp: HasPrefix_iff)
next
  assume "HasPrefix (x @ R) ref"
  then obtain z where "x @ R = ref @ z" by (auto simp: HasPrefix_iff)
  then obtain u where "x = ref @ u \<and> u @ R = z \<or> x @ u = ref \<and> R = u @ z"
    by (auto simp: append_eq_append_conv2)
  then show "HasPrefix x ref"
  proof
    assume "x = ref @ u \<and> u @ R = z"
    then show ?thesis by (auto simp: HasPrefix_iff)
  next
    assume a: "x @ u = ref \<and> R = u @ z"
    show ?thesis
    proof (cases u)
      case Nil
      with a show ?thesis by (auto simp: HasPrefix_iff)
    next
      case (Cons c u')
      with a have "hd R = c" "c \<in> set ref" "R \<noteq> []" by auto
      with assms show ?thesis by auto
    qed
  qed
qed

lemma takeWhile_run:
  "\<forall>c\<in>set run. P c \<Longrightarrow> u = [] \<or> \<not> P (hd u) \<Longrightarrow> takeWhile P (run @ u) = run"
  by (cases u) simp_all

lemma dropWhile_run:
  "\<forall>c\<in>set run. P c \<Longrightarrow> u = [] \<or> \<not> P (hd u) \<Longrightarrow> dropWhile P (run @ u) = u"
  by (cases u) simp_all

lemma literal_then_spaces_token:
  assumes p: "plain_ref ref" and r: "runes ref = Some rs"
    and x: "\<forall>c\<in>set x. \<not> rx_space c" and R: "R = [] \<or> rx_space (hd R)"
  shows "literal_then_spaces rs (x @ R) =
    (if x = ref \<and> R \<noteq> [] then Some (length ref, length (takeWhile rx_space R)) else None)"
proof (cases "HasPrefix x ref")
  case False
  then have "\<not> HasPrefix (x @ R) ref" "x \<noteq> ref"
    using HasPrefix_token [OF plain_ref_facts(4) [OF p] R] by (auto simp: HasPrefix_iff)
  then show ?thesis by (simp add: literal_then_spaces_def plain_ref_literal [OF p r])
next
  case True
  then obtain u where u: "x = ref @ u" by (auto simp: HasPrefix_iff)
  have m: "match_literal rs (x @ R) = Some (length ref)"
    using u by (simp add: plain_ref_literal [OF p r] HasPrefix_iff)
  show ?thesis
  proof (cases u)
    case Nil
    have "0 < length (takeWhile rx_space R) \<longleftrightarrow> R \<noteq> []" using R by (cases R) auto
    then show ?thesis using u Nil m by (simp add: literal_then_spaces_def Let_def)
  next
    case (Cons c u')
    then have "\<not> rx_space c" using x u by auto
    then have "takeWhile rx_space (u @ R) = []" using Cons by simp
    moreover have "x \<noteq> ref" using u Cons by simp
    ultimately show ?thesis using u m by (simp add: literal_then_spaces_def Let_def)
  qed
qed

lemma literal_then_spaces_space:
  assumes p: "plain_ref ref" and r: "runes ref = Some rs" and R: "R = [] \<or> rx_space (hd R)"
  shows "literal_then_spaces rs R = None"
  using literal_then_spaces_token [OF p r _ R, of "[]"] plain_ref_facts(1) [OF p] by auto

lemma spaces_before_None:
  "\<forall>k. 0 < k \<and> k \<le> n \<longrightarrow> \<not> P (drop k t) \<Longrightarrow> spaces_before P t n = None"
proof (induction n)
  case 0
  then show ?case by simp
next
  case (Suc n)
  then have "\<not> P (drop (Suc n) t)" and "spaces_before P t n = None" by simp_all
  then show ?case by simp
qed

lemma spaces_before_Some: "0 < n \<Longrightarrow> P (drop n t) \<Longrightarrow> spaces_before P t n = Some n"
  by (cases n) auto

lemma regexp_ReplaceAll_Nil: "regexp_ReplaceAll m [] = []"
  by (subst regexp_ReplaceAll.simps) simp

lemma regexp_copy_spaces:
  assumes "\<forall>c\<in>set s. rx_space c" and "\<And>j. j < length s \<Longrightarrow> m (drop j s @ r) = None"
  shows "regexp_ReplaceAll m (s @ r) = s @ regexp_ReplaceAll m r"
  using assms
proof (induction s)
  case Nil
  then show ?case by simp
next
  case (Cons c s)
  have n: "m (c # s @ r) = None" using Cons.prems(2) [of 0] by simp
  have w: "rune_len (c # s @ r) = 1" using Cons.prems(1) by (intro space_rune_len) auto
  have "\<And>j. j < length s \<Longrightarrow> m (drop j s @ r) = None"
    using Cons.prems(2) [of "Suc j" for j] by simp
  then have ih: "regexp_ReplaceAll m (s @ r) = s @ regexp_ReplaceAll m r"
    using Cons.IH Cons.prems(1) by simp
  show ?case
    by (subst regexp_ReplaceAll.simps) (simp add: n w ih)
qed

lemma map_tokens_Nil: "map_tokens f b [] = []"
  by (subst map_tokens.simps) simp

lemma map_tokens_space_Cons: "rx_space c \<Longrightarrow> map_tokens f b (c # t) = c # map_tokens f True t"
  by (subst map_tokens.simps) simp

lemma map_tokens_run:
  "\<forall>c\<in>set run. rx_space c \<Longrightarrow> map_tokens f b (run @ u) = run @ map_tokens f (b \<or> run \<noteq> []) u"
proof (induction run arbitrary: b)
  case Nil
  then show ?case by simp
next
  case (Cons c run)
  then have "map_tokens f True (run @ u) = run @ map_tokens f True u" by simp
  then show ?case using Cons.prems by (simp add: map_tokens_space_Cons)
qed

lemma map_tokens_token:
  assumes "x \<noteq> []" and "\<forall>c\<in>set x. \<not> rx_space c" and "R = [] \<or> rx_space (hd R)"
  shows "map_tokens f b (x @ R) = f b (R \<noteq> []) x @ map_tokens f False R"
proof -
  have t: "takeWhile (\<lambda>c. \<not> rx_space c) (x @ R) = x"
    and d: "dropWhile (\<lambda>c. \<not> rx_space c) (x @ R) = R"
    using takeWhile_run [of x "\<lambda>c. \<not> rx_space c" R] dropWhile_run [of x "\<lambda>c. \<not> rx_space c" R]
      assms(2,3) by auto
  have h: "\<not> rx_space (hd (x @ R))" using assms(1,2) by (cases x) auto
  show ?thesis using assms(1) h by (subst map_tokens.simps) (simp add: t d)
qed

lemma map_tokens_space:
  "R = [] \<or> rx_space (hd R) \<Longrightarrow>
   (map_tokens f b R = [] \<or> rx_space (hd (map_tokens f b R))) \<and> (map_tokens f b R \<noteq> [] \<longleftrightarrow> R \<noteq> [])"
  by (cases R) (simp_all add: map_tokens_Nil map_tokens_space_Cons)

lemma split_run:
  obtains run u where "t = run @ u" and "\<forall>c\<in>set run. P c" and "u = [] \<or> \<not> P (hd u)"
proof -
  have "t = takeWhile P t @ dropWhile P t" by simp
  moreover have "\<forall>c\<in>set (takeWhile P t). P c" by (auto dest: set_takeWhileD)
  moreover have "dropWhile P t = [] \<or> \<not> P (hd (dropWhile P t))"
    using hd_dropWhile [of P t] by blast
  ultimately show thesis by (rule that)
qed

lemma split_tokens:
  obtains run x R where "t = run @ x @ R" and "\<forall>c\<in>set run. rx_space c"
    and "\<forall>c\<in>set x. \<not> rx_space c" and "R = [] \<or> rx_space (hd R)" and "x = [] \<longrightarrow> R = []"
    and "t \<noteq> [] \<longrightarrow> length R < length t"
proof -
  obtain run u where 1: "t = run @ u" and 2: "\<forall>c\<in>set run. rx_space c"
    and u: "u = [] \<or> \<not> rx_space (hd u)" by (rule split_run)
  obtain x R where 3: "u = x @ R" and 4: "\<forall>c\<in>set x. \<not> rx_space c"
    and "R = [] \<or> \<not> \<not> rx_space (hd R)" by (rule split_run)
  then have 5: "R = [] \<or> rx_space (hd R)" by blast
  have 6: "x = [] \<longrightarrow> R = []" using u 3 5 by auto
  have 7: "t \<noteq> [] \<longrightarrow> length R < length t"
  proof
    assume ne: "t \<noteq> []"
    have l: "length t = length run + (length x + length R)" using 1 3 by simp
    show "length R < length t"
    proof (cases "x = []")
      case True
      with 6 have "R = []" by blast
      with ne show ?thesis by simp
    next
      case False
      then have "0 < length x" by blast
      with l show ?thesis by linarith
    qed
  qed
  from 1 3 have "t = run @ x @ R" by simp
  from that [OF this 2 4 5 6 7] show thesis .
qed


section \<open>The first replacement\<close>

text \<open>The first replacement wraps the identifier at the start of every token that follows a space.\<close>

lemma HasPrefix_space:
  assumes p: "plain_ref ref" and t: "t = [] \<or> rx_space (hd t)"
  shows "\<not> HasPrefix t ref"
proof
  assume "HasPrefix t ref"
  then obtain z where "t = ref @ z" by (auto simp: HasPrefix_iff)
  then have "t \<noteq> []" "hd t = hd ref" using plain_ref_facts(1) [OF p] by simp_all
  then show False using t plain_ref_facts(2) [OF p] by simp
qed

lemma hd_drop_append: "j < length x \<Longrightarrow> hd (drop j x @ R) \<in> set x"
  by (simp add: hd_append hd_drop_conv_nth)

lemma after_space_match_nonspace:
  "t = [] \<or> \<not> rx_space (hd t) \<Longrightarrow> after_space_match rs t = None"
  by (cases t) (simp_all add: after_space_match_def)

lemma after_space_match_run_None:
  assumes p: "plain_ref ref" and r: "runes ref = Some rs"
    and run: "\<forall>c\<in>set run. rx_space c" and u: "u = [] \<or> \<not> rx_space (hd u)"
    and n: "\<not> HasPrefix u ref"
  shows "after_space_match rs (run @ u) = None"
proof -
  have tw: "takeWhile rx_space (run @ u) = run" using run u by (rule takeWhile_run)
  have "spaces_before (\<lambda>u. match_literal rs u \<noteq> None) (run @ u) (length run) = None"
  proof (rule spaces_before_None, intro allI impI)
    fix k
    assume k: "0 < k \<and> k \<le> length run"
    show "\<not> match_literal rs (drop k (run @ u)) \<noteq> None"
    proof (cases "k = length run")
      case True
      then show ?thesis using n by (simp add: plain_ref_literal [OF p r])
    next
      case False
      with k have kl: "k < length run" by simp
      then have "hd (drop k run @ u) \<in> set run" by (rule hd_drop_append)
      then have "rx_space (hd (drop k run @ u))" using run by blast
      then have "\<not> HasPrefix (drop k run @ u) ref" by (intro HasPrefix_space [OF p]) simp
      then show ?thesis using kl by (simp add: plain_ref_literal [OF p r])
    qed
  qed
  then show ?thesis by (simp add: after_space_match_def tw)
qed

lemma after_space_match_run_Some:
  assumes p: "plain_ref ref" and r: "runes ref = Some rs"
    and run: "\<forall>c\<in>set run. rx_space c" and ne: "run \<noteq> []" and h: "HasPrefix u ref"
  shows "after_space_match rs (run @ u) = Some (length run + length ref, run @ strong ref)"
proof -
  have u: "u = [] \<or> \<not> rx_space (hd u)" using HasPrefix_space [OF p, of u] h by blast
  have tw: "takeWhile rx_space (run @ u) = run" using run u by (rule takeWhile_run)
  have "spaces_before (\<lambda>u. match_literal rs u \<noteq> None) (run @ u) (length run) = Some (length run)"
    using ne h by (intro spaces_before_Some) (simp_all add: plain_ref_literal [OF p r])
  moreover have "take (length ref) u = ref" using h by (simp add: HasPrefix_def)
  ultimately show ?thesis
    using h by (simp add: after_space_match_def tw plain_ref_literal [OF p r])
qed

lemma pass1_token:
  assumes x: "\<forall>c\<in>set x. \<not> rx_space c" and R: "R = [] \<or> rx_space (hd R)"
  shows "regexp_ReplaceAll (after_space_match rs) (x @ R) =
    x @ regexp_ReplaceAll (after_space_match rs) R"
proof (rule regexp_copy)
  fix j
  assume j: "j < length x"
  then have "hd (drop j x @ R) \<in> set x" by (rule hd_drop_append)
  then have "\<not> rx_space (hd (drop j x @ R))" using x by blast
  then show "after_space_match rs (drop j x @ R) = None"
    by (intro after_space_match_nonspace) simp
next
  show "R = [] \<or> \<not> cont_byte (of_char (hd R))" using R space_not_cont by blast
qed

lemma pass1_run_None:
  assumes p: "plain_ref ref" and r: "runes ref = Some rs"
    and run: "\<forall>c\<in>set run. rx_space c" and u: "u = [] \<or> \<not> rx_space (hd u)"
    and n: "\<not> HasPrefix u ref"
  shows "regexp_ReplaceAll (after_space_match rs) (run @ u) =
    run @ regexp_ReplaceAll (after_space_match rs) u"
proof (rule regexp_copy_spaces [OF run])
  fix j
  have "\<forall>c\<in>set (drop j run). rx_space c" using run by (auto dest: in_set_dropD)
  then show "after_space_match rs (drop j run @ u) = None"
    using u n by (rule after_space_match_run_None [OF p r])
qed

lemma pass1_run_Some:
  assumes p: "plain_ref ref" and r: "runes ref = Some rs"
    and run: "\<forall>c\<in>set run. rx_space c" and ne: "run \<noteq> []" and h: "HasPrefix u ref"
  shows "regexp_ReplaceAll (after_space_match rs) (run @ u) =
    run @ strong ref @ regexp_ReplaceAll (after_space_match rs) (drop (length ref) u)"
  using ne plain_ref_facts(1) [OF p]
  by (subst regexp_ReplaceAll.simps)
    (simp add: after_space_match_run_Some [OF p r run ne h])

lemma pass1_tokens:
  assumes p: "plain_ref ref" and r: "runes ref = Some rs"
  shows "regexp_ReplaceAll (after_space_match rs) t = map_tokens (\<lambda>b a. wrap_front ref b) False t"
proof (induction t rule: length_induct)
  case (1 t)
  let ?S = "regexp_ReplaceAll (after_space_match rs)"
  let ?F = "\<lambda>b a. wrap_front ref b"
  obtain run x R where t: "t = run @ x @ R" and run: "\<forall>c\<in>set run. rx_space c"
    and x: "\<forall>c\<in>set x. \<not> rx_space c" and R: "R = [] \<or> rx_space (hd R)"
    and xR: "x = [] \<longrightarrow> R = []" and len: "t \<noteq> [] \<longrightarrow> length R < length t"
    by (rule split_tokens)
  show ?case
  proof (cases "x = []")
    case True
    then have tr: "t = run @ []" using t xR by simp
    have "?S (run @ []) = run @ ?S []"
      using HasPrefix_space [OF p, of "[]"] by (intro pass1_run_None [OF p r run]) simp_all
    moreover have "map_tokens ?F False (run @ []) = run @ map_tokens ?F (False \<or> run \<noteq> []) []"
      using run by (rule map_tokens_run)
    ultimately show ?thesis
      unfolding tr by (simp only: regexp_ReplaceAll_Nil map_tokens_Nil)
  next
    case False
    then have "length R < length t" using len t by simp
    then have ih: "?S R = map_tokens ?F False R" using 1 by blast
    have hx: "HasPrefix (x @ R) ref \<longleftrightarrow> HasPrefix x ref"
      using plain_ref_facts(4) [OF p] R by (rule HasPrefix_token)
    have ux: "x @ R = [] \<or> \<not> rx_space (hd (x @ R))" using False x by (cases x) auto
    have "map_tokens ?F False (run @ x @ R) = run @ map_tokens ?F (False \<or> run \<noteq> []) (x @ R)"
      using run by (rule map_tokens_run)
    also have "map_tokens ?F (False \<or> run \<noteq> []) (x @ R) =
      wrap_front ref (False \<or> run \<noteq> []) x @ map_tokens ?F False R"
      using False x R by (rule map_tokens_token)
    finally have rhs: "map_tokens ?F False t = run @ wrap_front ref (run \<noteq> []) x @ map_tokens ?F False R"
      unfolding t by simp
    have tok: "?S (y @ R) = y @ ?S R" if "set y \<subseteq> set x" for y
      using that x by (intro pass1_token [OF _ R]) auto
    show ?thesis
    proof (cases "run \<noteq> [] \<and> HasPrefix x ref")
      case True
      then have "?S (run @ x @ R) = run @ strong ref @ ?S (drop (length ref) (x @ R))"
        using hx by (intro pass1_run_Some [OF p r run]) simp_all
      moreover have "drop (length ref) (x @ R) = drop (length ref) x @ R"
        using True by (simp add: HasPrefix_def)
      moreover have "?S (drop (length ref) x @ R) = drop (length ref) x @ ?S R"
        by (rule tok) (rule set_drop_subset)
      ultimately have lhs: "?S t = run @ strong ref @ drop (length ref) x @ ?S R"
        unfolding t by simp
      have w: "wrap_front ref (run \<noteq> []) x = strong ref @ drop (length ref) x"
        using True by (simp add: wrap_front_def)
      show ?thesis by (simp only: lhs rhs w ih append_assoc)
    next
      case False
      have "?S (run @ x @ R) = run @ ?S (x @ R)"
      proof (cases "run = []")
        case True
        then show ?thesis by simp
      next
        case ne: False
        with False have "\<not> HasPrefix (x @ R) ref" using hx by simp
        with ux show ?thesis by (intro pass1_run_None [OF p r run])
      qed
      moreover have "?S (x @ R) = x @ ?S R" by (rule tok) simp
      ultimately have lhs: "?S t = run @ x @ ?S R" unfolding t by simp
      have w: "wrap_front ref (run \<noteq> []) x = x"
        using False by (auto simp add: wrap_front_def)
      show ?thesis by (simp only: lhs rhs w ih append_assoc)
    qed
  qed
qed


section \<open>The second replacement\<close>

text \<open>
  The second replacement wraps the identifier at the end of every token that a space
  follows; the marks of the first replacement end with \<open>>\<close>, so they never end
  with the identifier.
\<close>

lemma before_space_match_token:
  assumes p: "plain_ref ref" and r: "runes ref = Some rs"
    and x: "\<forall>c\<in>set x. \<not> rx_space c" and R: "R = [] \<or> rx_space (hd R)"
  shows "before_space_match rs (x @ R) =
    (if x = ref \<and> R \<noteq> []
     then Some (length ref + length (takeWhile rx_space R), strong ref @ takeWhile rx_space R)
     else None)"
proof -
  have "take (length (takeWhile rx_space R)) R = takeWhile rx_space R"
    by (rule takeWhile_eq_take [symmetric])
  then show ?thesis
    by (simp add: before_space_match_def literal_then_spaces_token [OF p r x R])
qed

lemma before_space_match_space:
  assumes p: "plain_ref ref" and r: "runes ref = Some rs" and R: "R = [] \<or> rx_space (hd R)"
  shows "before_space_match rs R = None"
  by (simp add: before_space_match_def literal_then_spaces_space [OF p r R])

lemma pass2_run:
  assumes p: "plain_ref ref" and r: "runes ref = Some rs" and run: "\<forall>c\<in>set run. rx_space c"
  shows "regexp_ReplaceAll (before_space_match rs) (run @ u) =
    run @ regexp_ReplaceAll (before_space_match rs) u"
proof (rule regexp_copy_spaces [OF run])
  fix j
  assume "j < length run"
  then have "hd (drop j run @ u) \<in> set run" by (rule hd_drop_append)
  then have "rx_space (hd (drop j run @ u))" using run by blast
  then show "before_space_match rs (drop j run @ u) = None"
    by (intro before_space_match_space [OF p r]) simp
qed

lemma pass2_ref:
  assumes p: "plain_ref ref" and r: "runes ref = Some rs"
    and ne: "R \<noteq> []" and R: "rx_space (hd R)"
  shows "regexp_ReplaceAll (before_space_match rs) (ref @ R) =
    strong ref @ regexp_ReplaceAll (before_space_match rs) R"
proof -
  let ?S = "regexp_ReplaceAll (before_space_match rs)"
  let ?n = "length (takeWhile rx_space R)"
  have m: "before_space_match rs (ref @ R) = Some (length ref + ?n, strong ref @ takeWhile rx_space R)"
    using before_space_match_token [OF p r plain_ref_facts(4) [OF p], of R] ne R by simp
  have d: "drop (length ref + ?n) (ref @ R) = dropWhile rx_space R"
    by (simp add: dropWhile_eq_drop)
  have "?S (ref @ R) = (strong ref @ takeWhile rx_space R) @ ?S (drop (length ref + ?n) (ref @ R))"
    using plain_ref_facts(1) [OF p] by (subst regexp_ReplaceAll.simps) (simp add: m)
  also have "\<dots> = strong ref @ takeWhile rx_space R @ ?S (dropWhile rx_space R)"
    by (simp only: d append_assoc)
  also have "takeWhile rx_space R @ ?S (dropWhile rx_space R) =
    ?S (takeWhile rx_space R @ dropWhile rx_space R)"
    by (rule pass2_run [OF p r, symmetric]) (auto dest: set_takeWhileD)
  finally show ?thesis by simp
qed

lemma HasSuffix_iff: "HasSuffix s r \<longleftrightarrow> (\<exists>z. s = z @ r)"
proof
  assume "HasSuffix s r"
  then have "s = take (length s - length r) s @ r"
    using append_take_drop_id [of "length s - length r" s] by (simp add: HasSuffix_def)
  then show "\<exists>z. s = z @ r" ..
next
  assume "\<exists>z. s = z @ r"
  then show "HasSuffix s r" by (auto simp: HasSuffix_def)
qed

lemma pass2_token:
  assumes p: "plain_ref ref" and r: "runes ref = Some rs"
    and x: "\<forall>c\<in>set x. \<not> rx_space c" and R: "R = [] \<or> rx_space (hd R)"
  shows "regexp_ReplaceAll (before_space_match rs) (x @ R) =
    wrap_back ref (R \<noteq> []) x @ regexp_ReplaceAll (before_space_match rs) R"
proof (cases "R \<noteq> [] \<and> HasSuffix x ref")
  case True
  let ?S = "regexp_ReplaceAll (before_space_match rs)"
  define x0 where "x0 = take (length x - length ref) x"
  have xx: "x = x0 @ ref"
    using True append_take_drop_id [of "length x - length ref" x] by (simp add: HasSuffix_def x0_def)
  have "?S (x0 @ ref @ R) = x0 @ ?S (ref @ R)"
  proof (rule regexp_copy)
    fix j
    assume j: "j < length x0"
    have "\<forall>c\<in>set (drop j x0 @ ref). \<not> rx_space c" using x xx by (auto dest: in_set_dropD)
    moreover have "drop j x0 @ ref \<noteq> ref" using j by simp
    ultimately have "before_space_match rs ((drop j x0 @ ref) @ R) = None"
      using before_space_match_token [OF p r _ R, of "drop j x0 @ ref"] by simp
    then show "before_space_match rs (drop j x0 @ ref @ R) = None" by simp
  next
    show "ref @ R = [] \<or> \<not> cont_byte (of_char (hd (ref @ R)))"
      using plain_ref_facts(1,3) [OF p] by simp
  qed
  moreover have "?S (ref @ R) = strong ref @ ?S R" using True R by (intro pass2_ref [OF p r]) auto
  moreover have "wrap_back ref (R \<noteq> []) x = x0 @ strong ref"
    using True by (simp add: wrap_back_def x0_def)
  ultimately show ?thesis by (simp add: xx)
next
  case False
  have "regexp_ReplaceAll (before_space_match rs) (x @ R) =
    x @ regexp_ReplaceAll (before_space_match rs) R"
  proof (rule regexp_copy)
    fix j
    assume j: "j < length x"
    have 1: "\<forall>c\<in>set (drop j x). \<not> rx_space c" using x by (auto dest: in_set_dropD)
    have "\<not> (drop j x = ref \<and> R \<noteq> [])"
    proof
      assume a: "drop j x = ref \<and> R \<noteq> []"
      then have "x = take j x @ ref" by (metis append_take_drop_id)
      then have "HasSuffix x ref" unfolding HasSuffix_iff ..
      with a False show False by simp
    qed
    then show "before_space_match rs (drop j x @ R) = None"
      using before_space_match_token [OF p r 1 R] by simp
  next
    show "R = [] \<or> \<not> cont_byte (of_char (hd R))" using R space_not_cont by blast
  qed
  moreover have "wrap_back ref (R \<noteq> []) x = x" using False by (auto simp: wrap_back_def)
  ultimately show ?thesis by simp
qed

lemma last_strong: "last (strong ref) = CHR ''>''"
  by (simp add: strong_def)

lemma HasSuffix_strong:
  assumes g: "CHR ''>'' \<notin> set ref"
  shows "HasSuffix (strong ref @ y) ref \<longleftrightarrow> HasSuffix y ref"
proof
  assume "HasSuffix y ref"
  then show "HasSuffix (strong ref @ y) ref" by (auto simp: HasSuffix_iff)
next
  assume "HasSuffix (strong ref @ y) ref"
  then obtain z where "strong ref @ y = z @ ref" by (auto simp: HasSuffix_iff)
  then obtain u where "strong ref = z @ u \<and> u @ y = ref \<or> strong ref @ u = z \<and> y = u @ ref"
    by (auto simp: append_eq_append_conv2)
  then show "HasSuffix y ref"
  proof
    assume a: "strong ref = z @ u \<and> u @ y = ref"
    show ?thesis
    proof (cases "u = []")
      case True
      with a show ?thesis by (auto simp: HasSuffix_iff)
    next
      case False
      then have "last u = last (strong ref)" using a by simp
      then have "last u = CHR ''>''" by (simp only: last_strong)
      moreover have "last u \<in> set ref" using False a by auto
      ultimately show ?thesis using g by simp
    qed
  next
    assume "strong ref @ u = z \<and> y = u @ ref"
    then show ?thesis by (auto simp: HasSuffix_iff)
  qed
qed

lemma wrap_back_front:
  assumes g: "CHR ''>'' \<notin> set ref"
  shows "wrap_back ref a (wrap_front ref b x) = emphasise_token ref b a x"
proof (cases "b \<and> HasPrefix x ref")
  case False
  then show ?thesis by (auto simp: wrap_front_def emphasise_token_def)
next
  case True
  let ?y = "drop (length ref) x"
  have "wrap_back ref a (strong ref @ ?y) = strong ref @ wrap_back ref a ?y"
  proof (cases "a \<and> HasSuffix ?y ref")
    case False
    then show ?thesis using HasSuffix_strong [OF g, of ?y] by (auto simp: wrap_back_def)
  next
    case s: True
    then have "length ref \<le> length ?y" by (simp add: HasSuffix_def)
    then have "take (length (strong ref @ ?y) - length ref) (strong ref @ ?y) =
      strong ref @ take (length ?y - length ref) ?y" by simp
    then show ?thesis using s HasSuffix_strong [OF g, of ?y] by (simp add: wrap_back_def)
  qed
  then show ?thesis using True by (simp add: wrap_front_def emphasise_token_def)
qed

lemma strong_nospace: "\<forall>c\<in>set ref. \<not> rx_space c \<Longrightarrow> \<forall>c\<in>set (strong ref). \<not> rx_space c"
  by (auto simp: strong_def rx_space_def)

lemma wrap_front_nospace:
  assumes "\<forall>c\<in>set ref. \<not> rx_space c" and "\<forall>c\<in>set x. \<not> rx_space c"
  shows "\<forall>c\<in>set (wrap_front ref b x). \<not> rx_space c"
  using assms strong_nospace [OF assms(1)] by (auto simp: wrap_front_def dest: in_set_dropD)

lemma pass2_tokens:
  assumes p: "plain_ref ref" and r: "runes ref = Some rs"
  shows "regexp_ReplaceAll (before_space_match rs) (map_tokens (\<lambda>b a. wrap_front ref b) b t) =
    map_tokens (emphasise_token ref) b t"
proof (induction t arbitrary: b rule: length_induct)
  case (1 t)
  let ?S = "regexp_ReplaceAll (before_space_match rs)"
  let ?F = "\<lambda>b a. wrap_front ref b"
  let ?E = "emphasise_token ref"
  obtain run x R where t: "t = run @ x @ R" and run: "\<forall>c\<in>set run. rx_space c"
    and x: "\<forall>c\<in>set x. \<not> rx_space c" and R: "R = [] \<or> rx_space (hd R)"
    and xR: "x = [] \<longrightarrow> R = []" and len: "t \<noteq> [] \<longrightarrow> length R < length t"
    by (rule split_tokens)
  have mr: "map_tokens f b (run @ u) = run @ map_tokens f (b \<or> run \<noteq> []) u" for f u
    using run by (rule map_tokens_run)
  show ?case
  proof (cases "x = []")
    case True
    then have tr: "t = run @ []" using t xR by simp
    have "?S (run @ []) = run @ ?S []" by (rule pass2_run [OF p r run])
    then show ?thesis
      unfolding tr by (simp only: mr regexp_ReplaceAll_Nil map_tokens_Nil)
  next
    case False
    let ?b = "b \<or> run \<noteq> []"
    let ?Z = "map_tokens ?F False R"
    have "length R < length t" using len t False by simp
    then have ih: "?S ?Z = map_tokens ?E False R" using 1 by blast
    have mt: "map_tokens f ?b (x @ R) = f ?b (R \<noteq> []) x @ map_tokens f False R" for f
      using False x R by (rule map_tokens_token)
    have inner: "map_tokens ?F b t = run @ wrap_front ref ?b x @ ?Z"
      unfolding t by (simp only: mr mt)
    have outer: "map_tokens ?E b t = run @ ?E ?b (R \<noteq> []) x @ map_tokens ?E False R"
      unfolding t by (simp only: mr mt)
    have Z: "?Z = [] \<or> rx_space (hd ?Z)" and ZR: "?Z \<noteq> [] \<longleftrightarrow> R \<noteq> []"
      using map_tokens_space [OF R, of ?F False] by blast+
    have x': "\<forall>c\<in>set (wrap_front ref ?b x). \<not> rx_space c"
      using plain_ref_facts(4) [OF p] x by (rule wrap_front_nospace)
    have "?S (run @ wrap_front ref ?b x @ ?Z) = run @ ?S (wrap_front ref ?b x @ ?Z)"
      by (rule pass2_run [OF p r run])
    also have "?S (wrap_front ref ?b x @ ?Z) = wrap_back ref (?Z \<noteq> []) (wrap_front ref ?b x) @ ?S ?Z"
      using x' Z by (rule pass2_token [OF p r])
    also have "wrap_back ref (?Z \<noteq> []) (wrap_front ref ?b x) = ?E ?b (R \<noteq> []) x"
      unfolding ZR using plain_ref_facts(5) [OF p] by (rule wrap_back_front)
    finally show ?thesis by (simp only: inner outer ih)
  qed
qed


section \<open>The third replacement\<close>

text \<open>
  After the first two replacements no token that follows a space is the identifier, so
  the third replacement finds nothing.
\<close>

lemma between_spaces_match_nonspace:
  "t = [] \<or> \<not> rx_space (hd t) \<Longrightarrow> between_spaces_match rs t = None"
  by (cases t) (simp_all add: between_spaces_match_def)

lemma between_spaces_match_run_None:
  assumes p: "plain_ref ref" and r: "runes ref = Some rs"
    and run: "\<forall>c\<in>set run. rx_space c"
    and x: "\<forall>c\<in>set x. \<not> rx_space c" and R: "R = [] \<or> rx_space (hd R)"
    and xR: "x = [] \<longrightarrow> R = []" and n: "\<not> (x = ref \<and> R \<noteq> [])"
  shows "between_spaces_match rs (run @ x @ R) = None"
proof -
  have u: "x @ R = [] \<or> \<not> rx_space (hd (x @ R))" using x xR by (cases x) auto
  have tw: "takeWhile rx_space (run @ x @ R) = run" using run u by (rule takeWhile_run)
  have "spaces_before (\<lambda>u. literal_then_spaces rs u \<noteq> None) (run @ x @ R) (length run) = None"
  proof (rule spaces_before_None, intro allI impI)
    fix k
    assume k: "0 < k \<and> k \<le> length run"
    show "\<not> literal_then_spaces rs (drop k (run @ x @ R)) \<noteq> None"
    proof (cases "k = length run")
      case True
      have "literal_then_spaces rs (x @ R) = None"
        using n literal_then_spaces_token [OF p r x R] by auto
      then show ?thesis using True by simp
    next
      case False
      with k have kl: "k < length run" by simp
      then have "hd (drop k run @ x @ R) \<in> set run" by (rule hd_drop_append)
      then have "rx_space (hd (drop k run @ x @ R))" using run by blast
      then have "literal_then_spaces rs (drop k run @ x @ R) = None"
        by (intro literal_then_spaces_space [OF p r]) simp
      then show ?thesis using kl by simp
    qed
  qed
  then show ?thesis by (simp add: between_spaces_match_def tw)
qed

lemma pass3_token:
  assumes x: "\<forall>c\<in>set x. \<not> rx_space c" and R: "R = [] \<or> rx_space (hd R)"
  shows "regexp_ReplaceAll (between_spaces_match rs) (x @ R) =
    x @ regexp_ReplaceAll (between_spaces_match rs) R"
proof (rule regexp_copy)
  fix j
  assume j: "j < length x"
  then have "hd (drop j x @ R) \<in> set x" by (rule hd_drop_append)
  then have "\<not> rx_space (hd (drop j x @ R))" using x by blast
  then show "between_spaces_match rs (drop j x @ R) = None"
    by (intro between_spaces_match_nonspace) simp
next
  show "R = [] \<or> \<not> cont_byte (of_char (hd R))" using R space_not_cont by blast
qed

lemma pass3_run:
  assumes p: "plain_ref ref" and r: "runes ref = Some rs"
    and run: "\<forall>c\<in>set run. rx_space c"
    and x: "\<forall>c\<in>set x. \<not> rx_space c" and R: "R = [] \<or> rx_space (hd R)"
    and xR: "x = [] \<longrightarrow> R = []" and n: "\<not> (x = ref \<and> R \<noteq> [])"
  shows "regexp_ReplaceAll (between_spaces_match rs) (run @ x @ R) =
    run @ regexp_ReplaceAll (between_spaces_match rs) (x @ R)"
proof (rule regexp_copy_spaces [OF run])
  fix j
  have "\<forall>c\<in>set (drop j run). rx_space c" using run by (auto dest: in_set_dropD)
  then show "between_spaces_match rs (drop j run @ x @ R) = None"
    using x R xR n by (rule between_spaces_match_run_None [OF p r])
qed

lemma length_strong: "length (strong ref) = length ref + 17"
  by (simp add: strong_def)

lemma wrap_back_cases:
  "wrap_back ref a x = x \<or> (\<exists>y. set y \<subseteq> set x \<and> wrap_back ref a x = y @ strong ref)"
  by (auto simp: wrap_back_def dest: in_set_takeD)

lemma emphasise_token_cases:
  "emphasise_token ref b a x = x \<and> \<not> (b \<and> HasPrefix x ref) \<or>
   (\<exists>y z. set y \<subseteq> set x \<and> set z \<subseteq> set x \<and>
     (emphasise_token ref b a x = y @ strong ref \<or> emphasise_token ref b a x = strong ref @ z \<or>
      emphasise_token ref b a x = strong ref @ y @ strong ref))"
proof (cases "b \<and> HasPrefix x ref")
  case True
  let ?d = "drop (length ref) x"
  have d: "set ?d \<subseteq> set x" by (rule set_drop_subset)
  from wrap_back_cases [of ref a ?d] show ?thesis
  proof
    assume "wrap_back ref a ?d = ?d"
    then have "emphasise_token ref b a x = strong ref @ ?d" using True by (simp add: emphasise_token_def)
    with d show ?thesis by blast
  next
    assume "\<exists>y. set y \<subseteq> set ?d \<and> wrap_back ref a ?d = y @ strong ref"
    then obtain y where y: "set y \<subseteq> set ?d" and w: "wrap_back ref a ?d = y @ strong ref" by blast
    then have "emphasise_token ref b a x = strong ref @ y @ strong ref"
      using True by (simp add: emphasise_token_def)
    moreover have "set y \<subseteq> set x" using y d by blast
    ultimately show ?thesis by blast
  qed
next
  case False
  then have e: "emphasise_token ref b a x = wrap_back ref a x" by (auto simp: emphasise_token_def)
  from wrap_back_cases [of ref a x] show ?thesis
  proof
    assume "wrap_back ref a x = x"
    then show ?thesis using e False by simp
  next
    assume "\<exists>y. set y \<subseteq> set x \<and> wrap_back ref a x = y @ strong ref"
    then show ?thesis using e by auto
  qed
qed

lemma emphasise_token_nospace:
  assumes "\<forall>c\<in>set ref. \<not> rx_space c" and "\<forall>c\<in>set x. \<not> rx_space c"
  shows "\<forall>c\<in>set (emphasise_token ref b a x). \<not> rx_space c"
  using emphasise_token_cases [of ref b a x] strong_nospace [OF assms(1)] assms(2)
  by (elim disjE conjE exE) auto

lemma strong_nonempty: "strong ref \<noteq> []"
  by (simp add: strong_def)

lemma emphasise_token_nonempty: "x \<noteq> [] \<Longrightarrow> emphasise_token ref b a x \<noteq> []"
  using emphasise_token_cases [of ref b a x] strong_nonempty [of ref]
  by (elim disjE conjE exE) auto

lemma emphasise_token_not_ref: "emphasise_token ref True a x \<noteq> ref"
proof -
  have l: "length ref < length (strong ref)" by (simp add: length_strong)
  from emphasise_token_cases [of ref True a x] show ?thesis
  proof (elim disjE conjE exE)
    assume "emphasise_token ref True a x = x" and "\<not> (True \<and> HasPrefix x ref)"
    then show ?thesis by (auto simp: HasPrefix_def)
  next
    fix y z
    assume "emphasise_token ref True a x = y @ strong ref"
    then have "length ref < length (emphasise_token ref True a x)" using l by simp
    then show ?thesis by auto
  next
    fix y z
    assume "emphasise_token ref True a x = strong ref @ z"
    then have "length ref < length (emphasise_token ref True a x)" using l by simp
    then show ?thesis by auto
  next
    fix y z
    assume "emphasise_token ref True a x = strong ref @ y @ strong ref"
    then have "length ref < length (emphasise_token ref True a x)" using l by simp
    then show ?thesis by auto
  qed
qed

lemma pass3_tokens:
  assumes p: "plain_ref ref" and r: "runes ref = Some rs"
  shows "regexp_ReplaceAll (between_spaces_match rs) (map_tokens (emphasise_token ref) b t) =
    map_tokens (emphasise_token ref) b t"
proof (induction t arbitrary: b rule: length_induct)
  case (1 t)
  let ?S = "regexp_ReplaceAll (between_spaces_match rs)"
  let ?E = "emphasise_token ref"
  obtain run x R where t: "t = run @ x @ R" and run: "\<forall>c\<in>set run. rx_space c"
    and x: "\<forall>c\<in>set x. \<not> rx_space c" and R: "R = [] \<or> rx_space (hd R)"
    and xR: "x = [] \<longrightarrow> R = []" and len: "t \<noteq> [] \<longrightarrow> length R < length t"
    by (rule split_tokens)
  have mr: "map_tokens f b (run @ u) = run @ map_tokens f (b \<or> run \<noteq> []) u" for f u
    using run by (rule map_tokens_run)
  show ?case
  proof (cases "x = []")
    case True
    then have tr: "t = run @ []" using t xR by simp
    have "?S (run @ [] @ []) = run @ ?S ([] @ [])"
      using plain_ref_facts(1) [OF p] by (intro pass3_run [OF p r run]) simp_all
    then have "?S (run @ []) = run @ []" by (simp add: regexp_ReplaceAll_Nil)
    then show ?thesis
      unfolding tr by (simp only: mr map_tokens_Nil)
  next
    case False
    let ?b = "b \<or> run \<noteq> []"
    let ?Z = "map_tokens ?E False R"
    let ?x = "?E ?b (R \<noteq> []) x"
    have "length R < length t" using len t False by simp
    then have ih: "?S ?Z = ?Z" using 1 by blast
    have mt: "map_tokens ?E ?b (x @ R) = ?x @ ?Z"
      using False x R by (rule map_tokens_token)
    have outer: "map_tokens ?E b t = run @ ?x @ ?Z"
      unfolding t by (simp only: mr mt)
    have Z: "?Z = [] \<or> rx_space (hd ?Z)"
      using map_tokens_space [OF R, of ?E False] by blast
    have x': "\<forall>c\<in>set ?x. \<not> rx_space c"
      using plain_ref_facts(4) [OF p] x by (rule emphasise_token_nospace)
    have ne: "?x \<noteq> []" using False by (rule emphasise_token_nonempty)
    have "?S (run @ ?x @ ?Z) = run @ ?S (?x @ ?Z)"
    proof (cases "run = []")
      case True
      then show ?thesis by simp
    next
      case False
      then have "?x \<noteq> ref" using emphasise_token_not_ref [of ref "R \<noteq> []" x] by simp
      then show ?thesis using ne by (intro pass3_run [OF p r run x' Z]) simp_all
    qed
    also have "?S (?x @ ?Z) = ?x @ ?S ?Z" using x' Z by (rule pass3_token)
    finally show ?thesis by (simp only: outer ih)
  qed
qed

lemma highlightRefs_plain:
  assumes p: "plain_ref ref"
  shows "highlightRefs text ref = Inr (emphasise_tokens ref text)"
proof -
  from p obtain rs where r: "runes ref = Some rs"
    by (auto simp: plain_ref_def split: option.splits)
  have "regexp_ReplaceAll (between_spaces_match rs)
      (regexp_ReplaceAll (before_space_match rs) (regexp_ReplaceAll (after_space_match rs) text)) =
    emphasise_tokens ref text"
    by (simp only: pass1_tokens [OF p r] pass2_tokens [OF p r] pass3_tokens [OF p r]
        emphasise_tokens_def)
  then show ?thesis
    using plain_ref_facts(1) [OF p] by (simp add: highlightRefs_def r Let_def)
qed

lemma emphasise_token_ref:
  "ref \<noteq> [] \<Longrightarrow> emphasise_token ref b a ref = (if b \<or> a then strong ref else ref)"
  by (auto simp: emphasise_token_def wrap_back_def HasPrefix_def HasSuffix_def)


section \<open>Properties of highlightRefs\<close>

text \<open>
  Claim C8, as the code has it. With an empty identifier the prose is returned as it is.
  Take an identifier that is plain: not empty, valid UTF-8 without the rune U+FFFD, with no
  space and no \<open>>\<close>. Cut the prose into its tokens, the longest pieces without a space.
  Then \<open>highlightRefs\<close> returns the prose with exactly these changes: in every token
  that follows a space and starts with the identifier, the identifier at its start is put
  between the strong marks; in every token that a space follows, the identifier at the end
  of the token (of what is left of it after its start was wrapped) is put between the
  strong marks; nothing else is changed, the spaces least of all. So a token that is the
  identifier is wrapped, once, when there is a space on one side of it at least, and is left
  alone when it is the whole prose; an occurrence inside a token that is neither its start
  nor its end is never wrapped; an occurrence that starts a longer word after a space, or
  ends one before a space, is wrapped. An identifier that is not valid UTF-8 stops the
  program when the first expression is compiled.
\<close>

theorem highlightRefs_wraps_token_ends:
  "highlightRefs text [] = Inr text \<and>
   (plain_ref ref \<longrightarrow>
      highlightRefs text ref = Inr (emphasise_tokens ref text) \<and>
      emphasise_token ref spaceBefore spaceAfter ref =
        (if spaceBefore \<or> spaceAfter then strong ref else ref)) \<and>
   (bad \<noteq> [] \<and> \<not> MustCompile_ok bad \<longrightarrow> highlightRefs text bad = Inl RegexpCompile)"
proof (intro conjI impI)
  show "highlightRefs text [] = Inr text" by (simp add: highlightRefs_def)
next
  assume "plain_ref ref"
  then show "highlightRefs text ref = Inr (emphasise_tokens ref text)"
    by (rule highlightRefs_plain)
next
  assume "plain_ref ref"
  then have "ref \<noteq> []" by (rule plain_ref_facts(1))
  then show "emphasise_token ref spaceBefore spaceAfter ref =
    (if spaceBefore \<or> spaceAfter then strong ref else ref)"
    by (rule emphasise_token_ref)
next
  assume "bad \<noteq> [] \<and> \<not> MustCompile_ok bad"
  then show "highlightRefs text bad = Inl RegexpCompile"
    by (simp add: highlightRefs_def MustCompile_ok_def)
qed

text \<open>The theorem at the identifier \<open>Foo\<close>, and at an identifier that is not UTF-8.\<close>

lemma plain_ref_Foo: "plain_ref ''Foo''"
  by code_simp

lemma emphasise_tokens_Foo:
  "emphasise_tokens ''Foo'' ''Foo calls xFoo and Foobar in aFoob , FooFoo Foo'' =
   ''<strong>Foo</strong> calls x<strong>Foo</strong> and <strong>Foo</strong>bar in aFoob , <strong>Foo</strong><strong>Foo</strong> <strong>Foo</strong>''"
  by code_simp

lemma MustCompile_ok_FF: "\<not> MustCompile_ok [CHR 0xFF]"
  by code_simp

theorem highlightRefs_wraps_token_ends_witness:
  "plain_ref ''Foo'' \<and>
   highlightRefs ''Foo calls xFoo and Foobar in aFoob , FooFoo Foo'' ''Foo'' =
     Inr ''<strong>Foo</strong> calls x<strong>Foo</strong> and <strong>Foo</strong>bar in aFoob , <strong>Foo</strong><strong>Foo</strong> <strong>Foo</strong>'' \<and>
   emphasise_token ''Foo'' True True ''Foo'' = ''<strong>Foo</strong>'' \<and>
   \<not> MustCompile_ok [CHR 0xFF] \<and>
   highlightRefs ''Foo calls xFoo and Foobar in aFoob , FooFoo Foo'' [CHR 0xFF] = Inl RegexpCompile"
  using highlightRefs_wraps_token_ends
    [of "''Foo calls xFoo and Foobar in aFoob , FooFoo Foo''" "''Foo''" True True "[CHR 0xFF]"]
    plain_ref_Foo MustCompile_ok_FF
  by (simp add: emphasise_tokens_Foo strong_def)

text \<open>
  What the claim says of the code is not so. An occurrence that starts or ends a longer
  word is wrapped; the identifier that is the whole prose is not; with the identifier
  \<open>>\<close> the second replacement wraps the last byte of a mark the first one wrote;
  with the identifier U+FFFD a byte of the prose that is no UTF-8 is wrapped.
\<close>

lemma highlightRefs_start_of_word:
  "highlightRefs '' Foobar'' ''Foo'' = Inr '' <strong>Foo</strong>bar''"
  by code_simp

lemma highlightRefs_end_of_word:
  "highlightRefs ''xFoo '' ''Foo'' = Inr ''x<strong>Foo</strong> ''"
  by code_simp

lemma highlightRefs_whole_text:
  "highlightRefs ''Foo'' ''Foo'' = Inr ''Foo''"
  by code_simp

lemma highlightRefs_mark_wrapped:
  "highlightRefs '' > x'' ''>'' = Inr '' <strong>></strong<strong>></strong> x''"
  by code_simp

lemma highlightRefs_invalid_byte:
  "highlightRefs ('' '' @ [CHR 0xFF] @ '' '') replacement =
   Inr ('' <strong>'' @ [CHR 0xFF] @ ''</strong> '')"
  by code_simp

theorem highlightRefs_counterexample:
  "highlightRefs '' Foobar'' ''Foo'' = Inr '' <strong>Foo</strong>bar'' \<and>
   highlightRefs ''xFoo '' ''Foo'' = Inr ''x<strong>Foo</strong> '' \<and>
   highlightRefs ''Foo'' ''Foo'' = Inr ''Foo'' \<and>
   highlightRefs '' > x'' ''>'' = Inr '' <strong>></strong<strong>></strong> x'' \<and>
   highlightRefs ('' '' @ [CHR 0xFF] @ '' '') replacement =
     Inr ('' <strong>'' @ [CHR 0xFF] @ ''</strong> '')"
  by (intro conjI highlightRefs_start_of_word highlightRefs_end_of_word highlightRefs_whole_text
      highlightRefs_mark_wrapped highlightRefs_invalid_byte)

end
